theory Spec2Isabelle
  imports Complex_Main "HOL-Library.Product_Lexorder" "HOL-Library.Sublist"
begin

section \<open>Python values read from a spreadsheet\<close>

text \<open>
  The loader (\<^verbatim>\<open>data_loader.py\<close>) reads cell values through openpyxl. A cell value is
  \<^verbatim>\<open>None\<close>, a \<^verbatim>\<open>str\<close>, an \<^verbatim>\<open>int\<close>, a \<^verbatim>\<open>float\<close>, a \<^verbatim>\<open>bool\<close> or an object of another
  type (a datetime, a time, a timedelta). An object of another type is kept by the two
  things the loader can observe of it: its \<^verbatim>\<open>str()\<close> text and its truth value; \<^verbatim>\<open>float()\<close>
  of it raises \<^verbatim>\<open>TypeError\<close>.

  A Python float is a binary64 value: a finite number (kept as the exact rational it
  denotes), an infinity or a NaN. The sign of zero is not kept.
\<close>

datatype pyfloat = Finite rat | PosInf | NegInf | NaN

datatype cell =
    CNone
  | CStr string
  | CInt int
  | CFloat pyfloat
  | CBool bool
  | COther string bool

datatype pyerror = ValueError | TypeError | OverflowError | KeyError | IndexError | ReadError

text \<open>Sequencing of computations that may raise.\<close>

definition bind_err :: "pyerror + 'a \<Rightarrow> ('a \<Rightarrow> pyerror + 'b) \<Rightarrow> pyerror + 'b" where
  "bind_err m f = (case m of Inl e \<Rightarrow> Inl e | Inr x \<Rightarrow> f x)"

subsection \<open>Characters and strings\<close>

definition is_digit :: "char \<Rightarrow> bool" where
  "is_digit c = (c \<in> set ''0123456789'')"

definition digit_val :: "char \<Rightarrow> nat" where
  "digit_val c = of_char c - 48"

text \<open>The ASCII characters that \<^verbatim>\<open>str.strip()\<close> and \<^verbatim>\<open>float()\<close> treat as white space:
  tab, line feed, vertical tab, form feed, carriage return, the four separators
  0x1C to 0x1F, and the space.\<close>

definition is_space :: "char \<Rightarrow> bool" where
  "is_space c = (of_char c \<in> {9::nat, 10, 11, 12, 13, 28, 29, 30, 31, 32})"

definition strip :: "string \<Rightarrow> string" where
  "strip s = rev (dropWhile is_space (rev (dropWhile is_space s)))"

text \<open>\<^verbatim>\<open>sub in s\<close> for strings: \<open>sub\<close> occurs as a contiguous, case-sensitive substring.\<close>

fun str_contains :: "string \<Rightarrow> string \<Rightarrow> bool" where
  "str_contains sub [] = (sub = [])"
| "str_contains sub (c # cs) = (prefix sub (c # cs) \<or> str_contains sub cs)"

fun nat_of_digits :: "string \<Rightarrow> nat" where
  "nat_of_digits [] = 0"
| "nat_of_digits cs = 10 * nat_of_digits (butlast cs) + digit_val (last cs)"

fun str_of_nat :: "nat \<Rightarrow> string" where
  "str_of_nat n =
     (if n < 10 then [''0123456789'' ! n]
      else str_of_nat (n div 10) @ [''0123456789'' ! (n mod 10)])"

declare str_of_nat.simps [simp del]

definition str_of_int :: "int \<Rightarrow> string" where
  "str_of_int i = (if i < 0 then CHR ''-'' # str_of_nat (nat (- i)) else str_of_nat (nat i))"

text \<open>
  The text \<^verbatim>\<open>str(v)\<close> of a value. The text of a float is its shortest round-trip
  \<^verbatim>\<open>repr\<close>, which is not computed here: it is kept symbolically as \<open>FloatRepr f\<close>. Such a
  text is made of the characters \<^verbatim>\<open>0123456789.e+-infa\<close> only, so it has no white space to
  strip, no \<^verbatim>\<open>/\<close> and no upper-case letter.
\<close>

datatype pystr = Str string | FloatRepr pyfloat

definition py_str :: "cell \<Rightarrow> pystr" where
  "py_str v = (case v of
       CNone \<Rightarrow> Str ''None''
     | CStr s \<Rightarrow> Str s
     | CInt i \<Rightarrow> Str (str_of_int i)
     | CFloat f \<Rightarrow> FloatRepr f
     | CBool b \<Rightarrow> Str (if b then ''True'' else ''False'')
     | COther t b \<Rightarrow> Str t)"

text \<open>\<^verbatim>\<open>sub in str(v)\<close>, for a \<open>sub\<close> that has a character outside \<^verbatim>\<open>0123456789.e+-infa\<close>.\<close>

definition text_contains :: "string \<Rightarrow> pystr \<Rightarrow> bool" where
  "text_contains sub t = (case t of Str s \<Rightarrow> str_contains sub s | FloatRepr f \<Rightarrow> False)"

definition text_strip :: "pystr \<Rightarrow> pystr" where
  "text_strip t = (case t of Str s \<Rightarrow> Str (strip s) | FloatRepr f \<Rightarrow> FloatRepr f)"

text \<open>The truth value \<^verbatim>\<open>bool(v)\<close>, as tested by \<^verbatim>\<open>not v\<close>.\<close>

definition truthy :: "cell \<Rightarrow> bool" where
  "truthy v = (case v of
       CNone \<Rightarrow> False
     | CStr s \<Rightarrow> s \<noteq> []
     | CInt i \<Rightarrow> i \<noteq> 0
     | CFloat f \<Rightarrow> f \<noteq> Finite 0
     | CBool b \<Rightarrow> b
     | COther t b \<Rightarrow> b)"

subsection \<open>Rounding to binary64\<close>

text \<open>
  \<open>round64 q\<close> is the binary64 value nearest to the rational \<open>q\<close>, ties to even, as
  IEEE 754 rounds: the result is a multiple of \<open>2 ^ (e - 52)\<close> where \<open>2 ^ e \<le> |q| <
  2 ^ (e + 1)\<close> and \<open>e\<close> is not taken below \<open>-1022\<close> (the subnormal range); a magnitude
  that rounds to \<open>2 ^ 1024\<close> or more is an infinity.
\<close>

definition round_half_even :: "rat \<Rightarrow> int" where
  "round_half_even q =
     (let f = \<lfloor>q\<rfloor>; d = q - of_int f
      in if d < 1 / 2 then f else if 1 / 2 < d then f + 1 else if even f then f else f + 1)"

definition pow2 :: "int \<Rightarrow> rat" where
  "pow2 e = (if 0 \<le> e then 2 ^ nat e else 1 / 2 ^ nat (- e))"

fun bit_length :: "nat \<Rightarrow> nat" where
  "bit_length n = (if n = 0 then 0 else Suc (bit_length (n div 2)))"

declare bit_length.simps [simp del]

definition floor_log2 :: "rat \<Rightarrow> int" where
  "floor_log2 a =
     (if 1 \<le> a then int (bit_length (nat \<lfloor>a\<rfloor>)) - 1
      else - int (bit_length (nat (\<lceil>1 / a\<rceil> - 1))))"

definition round64 :: "rat \<Rightarrow> pyfloat" where
  "round64 q =
     (if q = 0 then Finite 0
      else let a = \<bar>q\<bar>;
               e = max (floor_log2 a) (- 1022);
               ulp = pow2 (e - 52);
               v = of_int (round_half_even (a / ulp)) * ulp
           in if pow2 1024 \<le> v then (if q < 0 then NegInf else PosInf)
              else Finite (if q < 0 then - v else v))"

subsection \<open>The builtin \<^verbatim>\<open>float()\<close> and \<^verbatim>\<open>int()\<close>\<close>

text \<open>
  \<^verbatim>\<open>float(s)\<close> of a string: white space is stripped at both ends; an underscore is
  accepted only between two digits and is dropped; what remains is an optional sign and
  then \<^verbatim>\<open>inf\<close>, \<^verbatim>\<open>infinity\<close> or \<^verbatim>\<open>nan\<close> in any letter case, or a decimal number (digits with
  an optional point, at least one digit, and an optional exponent). The whole string must
  be used, else \<^verbatim>\<open>ValueError\<close> is raised (\<open>None\<close> here). Strings are ASCII.
\<close>

fun underscores_ok :: "char \<Rightarrow> string \<Rightarrow> bool" where
  "underscores_ok prev [] = (prev \<noteq> CHR ''_'')"
| "underscores_ok prev (c # cs) =
     (if c = CHR ''_'' then is_digit prev \<and> underscores_ok c cs
      else (prev = CHR ''_'' \<longrightarrow> is_digit c) \<and> underscores_ok c cs)"

definition drop_underscores :: "string \<Rightarrow> string option" where
  "drop_underscores s =
     (if underscores_ok (CHR 0x00) s then Some (filter (\<lambda>c. c \<noteq> CHR ''_'') s) else None)"

definition to_lower :: "char \<Rightarrow> char" where
  "to_lower c =
     (case map_of (zip ''ABCDEFGHIJKLMNOPQRSTUVWXYZ'' ''abcdefghijklmnopqrstuvwxyz'') c of
        Some l \<Rightarrow> l
      | None \<Rightarrow> c)"

definition parse_sign :: "string \<Rightarrow> bool \<times> string" where
  "parse_sign s = (case s of
       c # cs \<Rightarrow> if c = CHR ''-'' then (True, cs) else if c = CHR ''+'' then (False, cs) else (False, s)
     | [] \<Rightarrow> (False, s))"

text \<open>The exponent part: \<^verbatim>\<open>e\<close> or \<^verbatim>\<open>E\<close>, an optional sign and at least one digit. When
  the digits are missing the scan stops before the letter, which is then left over.\<close>

definition parse_exponent :: "string \<Rightarrow> int \<times> string" where
  "parse_exponent s = (case s of
       c # cs \<Rightarrow>
         if c = CHR ''e'' \<or> c = CHR ''E'' then
           (let (neg, r) = parse_sign cs; ds = takeWhile is_digit r
            in if ds = [] then (0, s)
               else ((if neg then - int (nat_of_digits ds) else int (nat_of_digits ds)),
                     dropWhile is_digit r))
         else (0, s)
     | [] \<Rightarrow> (0, s))"

definition parse_decimal :: "string \<Rightarrow> rat option" where
  "parse_decimal s =
     (let ip = takeWhile is_digit s;
          s2 = dropWhile is_digit s;
          (fp, s3) = (case s2 of
                        c # cs \<Rightarrow> if c = CHR ''.'' then (takeWhile is_digit cs, dropWhile is_digit cs)
                                  else ([], s2)
                      | [] \<Rightarrow> ([], s2));
          (ex, s4) = parse_exponent s3
      in if (ip = [] \<and> fp = []) \<or> s4 \<noteq> [] then None
         else Some (of_nat (nat_of_digits (ip @ fp)) *
                    (let k = ex - int (length fp)
                     in if 0 \<le> k then 10 ^ nat k else 1 / 10 ^ nat (- k))))"

definition float_of_string :: "string \<Rightarrow> pyfloat option" where
  "float_of_string s0 =
     (case drop_underscores (strip s0) of
        None \<Rightarrow> None
      | Some s \<Rightarrow>
          (let (neg, r) = parse_sign s; w = map to_lower r
           in if w = ''inf'' \<or> w = ''infinity'' then Some (if neg then NegInf else PosInf)
              else if w = ''nan'' then Some NaN
              else (case parse_decimal r of
                      None \<Rightarrow> None
                    | Some q \<Rightarrow> Some (round64 (if neg then - q else q)))))"

text \<open>\<^verbatim>\<open>float(v)\<close>: an int too large for a binary64 raises \<^verbatim>\<open>OverflowError\<close>.\<close>

definition py_float :: "cell \<Rightarrow> pyerror + pyfloat" where
  "py_float v = (case v of
       CNone \<Rightarrow> Inl TypeError
     | CStr s \<Rightarrow> (case float_of_string s of None \<Rightarrow> Inl ValueError | Some f \<Rightarrow> Inr f)
     | CInt i \<Rightarrow> (case round64 (of_int i) of Finite q \<Rightarrow> Inr (Finite q) | _ \<Rightarrow> Inl OverflowError)
     | CFloat f \<Rightarrow> Inr f
     | CBool b \<Rightarrow> Inr (Finite (if b then 1 else 0))
     | COther t b \<Rightarrow> Inl TypeError)"

text \<open>\<^verbatim>\<open>int(f)\<close> of a float truncates toward zero; an infinity raises \<^verbatim>\<open>OverflowError\<close>,
  a NaN raises \<^verbatim>\<open>ValueError\<close>.\<close>

definition py_int_of_float :: "pyfloat \<Rightarrow> pyerror + int" where
  "py_int_of_float f = (case f of
       Finite q \<Rightarrow> Inr (if 0 \<le> q then \<lfloor>q\<rfloor> else \<lceil>q\<rceil>)
     | PosInf \<Rightarrow> Inl OverflowError
     | NegInf \<Rightarrow> Inl OverflowError
     | NaN \<Rightarrow> Inl ValueError)"

section \<open>The coercions \<^verbatim>\<open>safe_float\<close> and \<^verbatim>\<open>safe_int\<close>\<close>

text \<open>
  \<^verbatim>\<open>val is None or val == '' or val == '-'\<close> gives the default. Otherwise the conversion
  runs inside \<^verbatim>\<open>try\<close>, and \<^verbatim>\<open>except (ValueError, TypeError)\<close> gives the default; any other
  exception leaves the function.
\<close>

definition is_blank :: "cell \<Rightarrow> bool" where
  "is_blank val = (val = CNone \<or> val = CStr [] \<or> val = CStr ''-'')"

definition catch_value_type :: "pyerror + 'a \<Rightarrow> 'a \<Rightarrow> pyerror + 'a" where
  "catch_value_type r dflt = (case r of
       Inl ValueError \<Rightarrow> Inr dflt
     | Inl TypeError \<Rightarrow> Inr dflt
     | Inl e \<Rightarrow> Inl e
     | Inr x \<Rightarrow> Inr x)"

definition safe_float_default :: "cell \<Rightarrow> pyfloat \<Rightarrow> pyerror + pyfloat" where
  "safe_float_default val dflt =
     (if is_blank val then Inr dflt else catch_value_type (py_float val) dflt)"

definition safe_int_default :: "cell \<Rightarrow> int \<Rightarrow> pyerror + int" where
  "safe_int_default val dflt =
     (if is_blank val then Inr dflt
      else catch_value_type (bind_err (py_float val) py_int_of_float) dflt)"

definition safe_float :: "cell \<Rightarrow> pyerror + pyfloat" where
  "safe_float val = safe_float_default val (Finite 0)"

definition safe_int :: "cell \<Rightarrow> pyerror + int" where
  "safe_int val = safe_int_default val 0"

section \<open>The report date\<close>

text \<open>A calendar date \<^verbatim>\<open>datetime.date(year, month, day)\<close>; the order on triples is the
  order of dates.\<close>

type_synonym date = "nat \<times> nat \<times> nat"

definition is_leap :: "nat \<Rightarrow> bool" where
  "is_leap y = (y mod 4 = 0 \<and> (y mod 100 \<noteq> 0 \<or> y mod 400 = 0))"

definition days_in_month :: "nat \<Rightarrow> nat \<Rightarrow> nat" where
  "days_in_month y m =
     (if m = 2 then (if is_leap y then 29 else 28)
      else if m \<in> {4, 6, 9, 11} then 30 else 31)"

text \<open>
  \<^verbatim>\<open>re.search(r'(\d{1,2}/\d{1,2}/\d{4})', text)\<close>: the pattern is tried at each position from
  the left; at a position the two counted groups are tried greedily, two digits before
  one. \<open>try_match m d s\<close> is the attempt with \<open>m\<close> month digits and \<open>d\<close> day digits at the
  start of \<open>s\<close>.
\<close>

definition try_match :: "nat \<Rightarrow> nat \<Rightarrow> string \<Rightarrow> string option" where
  "try_match m d s =
     (let ms = take m s; r1 = drop m s;
          ds = take d (drop 1 r1); r2 = drop d (drop 1 r1);
          ys = take 4 (drop 1 r2)
      in if length ms = m \<and> list_all is_digit ms \<and> take 1 r1 = ''/'' \<and>
            length ds = d \<and> list_all is_digit ds \<and> take 1 r2 = ''/'' \<and>
            length ys = 4 \<and> list_all is_digit ys
         then Some (ms @ ''/'' @ ds @ ''/'' @ ys) else None)"

definition match_date_here :: "string \<Rightarrow> string option" where
  "match_date_here s =
     (case try_match 2 2 s of Some t \<Rightarrow> Some t | None \<Rightarrow>
      (case try_match 2 1 s of Some t \<Rightarrow> Some t | None \<Rightarrow>
       (case try_match 1 2 s of Some t \<Rightarrow> Some t | None \<Rightarrow> try_match 1 1 s)))"

fun re_search_date :: "string \<Rightarrow> string option" where
  "re_search_date [] = None"
| "re_search_date (c # cs) =
     (case match_date_here (c # cs) of Some t \<Rightarrow> Some t | None \<Rightarrow> re_search_date cs)"

definition text_search_date :: "pystr \<Rightarrow> string option" where
  "text_search_date t = (case t of Str s \<Rightarrow> re_search_date s | FloatRepr f \<Rightarrow> None)"

text \<open>
  \<^verbatim>\<open>datetime.strptime(token, '%m/%d/%Y').date()\<close> on a match of the pattern: the month must
  be 1 to 12, the day 1 to 31 and within the month, the year at least 1; otherwise
  \<^verbatim>\<open>ValueError\<close> is raised.
\<close>

definition strptime_mdY :: "string \<Rightarrow> pyerror + date" where
  "strptime_mdY t =
     (let ms = takeWhile is_digit t; r = drop 1 (dropWhile is_digit t);
          ds = takeWhile is_digit r; ys = drop 1 (dropWhile is_digit r);
          m = nat_of_digits ms; d = nat_of_digits ds; y = nat_of_digits ys
      in if 1 \<le> m \<and> m \<le> 12 \<and> 1 \<le> d \<and> d \<le> 31 \<and> 1 \<le> y \<and> d \<le> days_in_month y m
         then Inr (y, m, d) else Inl ValueError)"

definition parse_date_from_cell :: "cell \<Rightarrow> pyerror + date option" where
  "parse_date_from_cell v =
     (if \<not> truthy v then Inr None
      else (case text_search_date (py_str v) of
              None \<Rightarrow> Inr None
            | Some t \<Rightarrow> bind_err (strptime_mdY t) (\<lambda>d. Inr (Some d))))"

section \<open>Parsing one report: \<^verbatim>\<open>parse_flash_report\<close>\<close>

text \<open>
  A record is a Python dict with string keys, kept as the list of its items in insertion
  order. A sheet gives the value of the cell at a row and a column, both counted from 1;
  a cell that was never written has the value \<^verbatim>\<open>None\<close>. \<^verbatim>\<open>load_workbook\<close> either raises
  or gives the sheets of the workbook by name.
\<close>

datatype pyval = VDate date | VStr pystr | VFloat pyfloat | VInt int

type_synonym pyrecord = "(string \<times> pyval) list"

type_synonym sheet = "nat \<Rightarrow> nat \<Rightarrow> cell"

datatype file_read = Unreadable | Workbook "(string \<times> sheet) list"

datatype coercion = AsFloat | AsInt

definition coerce :: "coercion \<Rightarrow> cell \<Rightarrow> pyerror + pyval" where
  "coerce k v = (case k of
       AsFloat \<Rightarrow> bind_err (safe_float v) (\<lambda>f. Inr (VFloat f))
     | AsInt \<Rightarrow> bind_err (safe_int v) (\<lambda>i. Inr (VInt i)))"

text \<open>The items of a dict literal after the first ones: key, column, coercion.\<close>

fun read_fields :: "sheet \<Rightarrow> nat \<Rightarrow> (string \<times> nat \<times> coercion) list \<Rightarrow> pyerror + pyrecord" where
  "read_fields ws row [] = Inr []"
| "read_fields ws row ((key, col, k) # fs) =
     bind_err (coerce k (ws row col)) (\<lambda>v.
     bind_err (read_fields ws row fs) (\<lambda>rest. Inr ((key, v) # rest)))"

definition sales_fields :: "(string \<times> nat \<times> coercion) list" where
  "sales_fields =
    [(''day_sales_ty'', 2, AsFloat), (''day_sales_ly'', 3, AsFloat),
     (''day_sales_diff'', 4, AsFloat), (''day_sales_pct'', 5, AsFloat),
     (''wtd_sales_ty'', 6, AsFloat), (''wtd_sales_ly'', 7, AsFloat),
     (''wtd_sales_diff'', 8, AsFloat), (''wtd_sales_pct'', 9, AsFloat),
     (''ptd_sales_ty'', 10, AsFloat), (''ptd_sales_ly'', 11, AsFloat),
     (''ptd_sales_diff'', 12, AsFloat), (''ptd_sales_pct'', 13, AsFloat),
     (''ytd_sales_ty'', 14, AsFloat), (''ytd_sales_ly'', 15, AsFloat),
     (''ytd_sales_diff'', 16, AsFloat), (''ytd_sales_pct'', 17, AsFloat),
     (''r13_sales_ty'', 18, AsFloat), (''r13_sales_ly'', 19, AsFloat),
     (''r13_sales_diff'', 20, AsFloat), (''r13_sales_pct'', 21, AsFloat)]"

definition trans_fields :: "(string \<times> nat \<times> coercion) list" where
  "trans_fields =
    [(''day_trans_ty'', 2, AsInt), (''day_trans_ly'', 3, AsInt),
     (''day_trans_diff'', 4, AsInt), (''day_trans_pct'', 5, AsFloat),
     (''wtd_trans_ty'', 6, AsInt), (''wtd_trans_ly'', 7, AsInt),
     (''wtd_trans_diff'', 8, AsInt), (''wtd_trans_pct'', 9, AsFloat),
     (''ptd_trans_ty'', 10, AsInt), (''ptd_trans_ly'', 11, AsInt),
     (''ptd_trans_diff'', 12, AsInt), (''ptd_trans_pct'', 13, AsFloat),
     (''ytd_trans_ty'', 14, AsInt), (''ytd_trans_ly'', 15, AsInt),
     (''ytd_trans_diff'', 16, AsInt), (''ytd_trans_pct'', 17, AsFloat),
     (''r13_trans_ty'', 18, AsInt), (''r13_trans_ly'', 19, AsInt),
     (''r13_trans_diff'', 20, AsInt), (''r13_trans_pct'', 21, AsFloat)]"

definition channel_fields :: "(string \<times> nat \<times> coercion) list" where
  "channel_fields =
    [(''avg_check_ty'', 2, AsFloat), (''avg_check_ly'', 3, AsFloat),
     (''avg_check_diff'', 4, AsFloat), (''avg_check_pct'', 5, AsFloat),
     (''dine_in_sales'', 6, AsFloat), (''dine_in_trans'', 7, AsInt),
     (''dine_in_avg_check'', 8, AsFloat), (''dine_in_pct_sales'', 9, AsFloat),
     (''carry_out_sales'', 10, AsFloat), (''carry_out_trans'', 11, AsInt),
     (''carry_out_avg_check'', 12, AsFloat), (''carry_out_pct_sales'', 13, AsFloat),
     (''delivery_sales'', 14, AsFloat), (''delivery_trans'', 15, AsInt),
     (''delivery_avg_check'', 16, AsFloat), (''delivery_pct_sales'', 17, AsFloat),
     (''drive_thru_sales'', 18, AsFloat), (''drive_thru_trans'', 19, AsInt),
     (''drive_thru_avg_check'', 20, AsFloat), (''drive_thru_pct_sales'', 21, AsFloat)]"

definition labor_fields :: "(string \<times> nat \<times> coercion) list" where
  "labor_fields =
    [(''labor_dollars'', 2, AsFloat), (''labor_pct'', 3, AsFloat),
     (''olo_sales'', 4, AsFloat), (''doordash'', 5, AsFloat),
     (''ubereats'', 6, AsFloat), (''grubhub'', 7, AsFloat),
     (''eatstreet'', 8, AsFloat), (''ezcater'', 9, AsFloat),
     (''total_3rd_party_dollars'', 10, AsFloat), (''total_3rd_party_pct'', 11, AsFloat)]"

text \<open>
  The body of a per-store loop. \<open>Inr None\<close> is \<^verbatim>\<open>continue\<close>: the row is skipped when its
  label is falsy or its text contains \<^verbatim>\<open>Totals\<close> (and, in the sales loop only, when it
  contains \<^verbatim>\<open>Brand\<close>). Otherwise the row gives one record.
\<close>

definition store_row ::
  "bool \<Rightarrow> (string \<times> nat \<times> coercion) list \<Rightarrow> sheet \<Rightarrow> date \<Rightarrow> nat \<Rightarrow> pyerror + pyrecord option" where
  "store_row skip_brand fields ws report_date row_num =
     (let store_name = ws row_num 1
      in if \<not> truthy store_name \<or> text_contains ''Totals'' (py_str store_name) \<or>
            (skip_brand \<and> text_contains ''Brand'' (py_str store_name))
         then Inr None
         else bind_err (read_fields ws row_num fields) (\<lambda>fs.
              Inr (Some ((''date'', VDate report_date) #
                         (''store'', VStr (text_strip (py_str store_name))) # fs))))"

definition sales_row :: "sheet \<Rightarrow> date \<Rightarrow> nat \<Rightarrow> pyerror + pyrecord option" where
  "sales_row = store_row True sales_fields"

definition trans_row :: "sheet \<Rightarrow> date \<Rightarrow> nat \<Rightarrow> pyerror + pyrecord option" where
  "trans_row = store_row False trans_fields"

definition channel_row :: "sheet \<Rightarrow> date \<Rightarrow> nat \<Rightarrow> pyerror + pyrecord option" where
  "channel_row = store_row False channel_fields"

definition labor_row :: "sheet \<Rightarrow> date \<Rightarrow> nat \<Rightarrow> pyerror + pyrecord option" where
  "labor_row = store_row False labor_fields"

text \<open>\<^verbatim>\<open>for row_num in range(...)\<close>: the records of the rows that are not skipped, in row
  order; an exception in a row ends the loop.\<close>

fun scan_rows :: "(nat \<Rightarrow> pyerror + pyrecord option) \<Rightarrow> nat list \<Rightarrow> pyerror + pyrecord list" where
  "scan_rows body [] = Inr []"
| "scan_rows body (r # rs) =
     bind_err (body r) (\<lambda>x.
     bind_err (scan_rows body rs) (\<lambda>recs.
       Inr (case x of None \<Rightarrow> recs | Some rec \<Rightarrow> rec # recs)))"

text \<open>The brand totals are read from row 16, whatever its label.\<close>

definition brand_total_row :: "sheet \<Rightarrow> date \<Rightarrow> pyerror + pyrecord" where
  "brand_total_row ws report_date =
     bind_err (read_fields ws 16 sales_fields) (\<lambda>fs. Inr ((''date'', VDate report_date) # fs))"

record parsed =
  res_date :: date
  res_sales :: "pyrecord list"
  res_brand_total :: pyrecord
  res_transactions :: "pyrecord list"
  res_channels :: "pyrecord list"
  res_labor :: "pyrecord list"

definition parse_sheet :: "sheet \<Rightarrow> pyerror + parsed option" where
  "parse_sheet ws =
     bind_err (parse_date_from_cell (ws 2 1)) (\<lambda>rd.
       case rd of
         None \<Rightarrow> Inr None
       | Some report_date \<Rightarrow>
           bind_err (scan_rows (sales_row ws report_date) [8..<16]) (\<lambda>sales_records.
           bind_err (brand_total_row ws report_date) (\<lambda>brand_total.
           bind_err (scan_rows (trans_row ws report_date) [54..<62]) (\<lambda>trans_records.
           bind_err (scan_rows (channel_row ws report_date) [66..<74]) (\<lambda>channel_records.
           bind_err (scan_rows (labor_row ws report_date) [78..<86]) (\<lambda>labor_records.
             Inr (Some \<lparr>res_date = report_date, res_sales = sales_records,
                        res_brand_total = brand_total, res_transactions = trans_records,
                        res_channels = channel_records, res_labor = labor_records\<rparr>)))))))"

definition parse_flash_report :: "file_read \<Rightarrow> pyerror + parsed option" where
  "parse_flash_report file = (case file of
       Unreadable \<Rightarrow> Inl ReadError
     | Workbook wb \<Rightarrow>
         (case map_of wb ''Multibrand_DailyFlashReport'' of
            None \<Rightarrow> Inl KeyError
          | Some ws \<Rightarrow> parse_sheet ws))"

section \<open>Loading a folder: \<^verbatim>\<open>load_all_reports\<close>\<close>

text \<open>
  A file of the folder, as the loader sees it: its name, its modification time
  (\<^verbatim>\<open>os.path.getmtime\<close>, a finite float) and what \<^verbatim>\<open>load_workbook\<close> makes of it. The
  argument of \<open>load_all_reports\<close> is the folder's listing, in the order in which the
  operating system enumerates it.
\<close>

record xlsx_file =
  basename :: string
  mtime :: rat
  content :: file_read

text \<open>\<^verbatim>\<open>glob.glob(os.path.join(folder_path, 'Multibrand_FlashReport*.xlsx'))\<close> keeps, in
  listing order, the names that start with the prefix and end, after it, with the
  extension (names are compared case-sensitively, as on a POSIX system).\<close>

definition fnmatch_flash :: "string \<Rightarrow> bool" where
  "fnmatch_flash name =
     (prefix ''Multibrand_FlashReport'' name \<and>
      suffix ''.xlsx'' (drop (length ''Multibrand_FlashReport'') name))"

definition glob_flash :: "xlsx_file list \<Rightarrow> xlsx_file list" where
  "glob_flash listing = filter (\<lambda>f. fnmatch_flash (basename f)) listing"

text \<open>\<^verbatim>\<open>re.search(r'(\[\d+\])', basename)\<close>: the leftmost bracketed run of digits.\<close>

definition match_suffix_here :: "string \<Rightarrow> string option" where
  "match_suffix_here s = (case s of
       [] \<Rightarrow> None
     | c # cs \<Rightarrow>
         if c = CHR ''[''  \<and> takeWhile is_digit cs \<noteq> [] \<and> take 1 (dropWhile is_digit cs) = '']''
         then Some (''['' @ takeWhile is_digit cs @ '']'') else None)"

fun re_search_suffix :: "string \<Rightarrow> string option" where
  "re_search_suffix [] = None"
| "re_search_suffix (c # cs) =
     (case match_suffix_here (c # cs) of Some t \<Rightarrow> Some t | None \<Rightarrow> re_search_suffix cs)"

definition PREFERRED_SUFFIXES :: "string list" where
  "PREFERRED_SUFFIXES = [''[74]'']"

definition is_preferred :: "string \<Rightarrow> bool" where
  "is_preferred name =
     (let suffix = (case re_search_suffix name of Some t \<Rightarrow> t | None \<Rightarrow> [])
      in suffix \<in> set PREFERRED_SUFFIXES)"

text \<open>An entry of \<^verbatim>\<open>parsed_by_date\<close>: \<^verbatim>\<open>(filepath, mtime, preferred, result)\<close>.\<close>

type_synonym entry = "string \<times> rat \<times> bool \<times> parsed"

definition entry_mtime :: "entry \<Rightarrow> rat" where
  "entry_mtime e = fst (snd e)"

definition entry_preferred :: "entry \<Rightarrow> bool" where
  "entry_preferred e = fst (snd (snd e))"

definition entry_result :: "entry \<Rightarrow> parsed" where
  "entry_result e = snd (snd (snd e))"

text \<open>\<^verbatim>\<open>d.setdefault(k, []).append(v)\<close> on a dict kept as its items in insertion order.\<close>

fun setdefault_append :: "('k \<times> 'v list) list \<Rightarrow> 'k \<Rightarrow> 'v \<Rightarrow> ('k \<times> 'v list) list" where
  "setdefault_append [] k v = [(k, [v])]"
| "setdefault_append ((k', vs) # rest) k v =
     (if k' = k then (k', vs @ [v]) # rest else (k', vs) # setdefault_append rest k v)"

text \<open>
  One turn of the first loop. \<^verbatim>\<open>except Exception\<close> prints a message and goes on to the
  next file; a result of \<^verbatim>\<open>None\<close> goes on as well. The printed message is not kept.
\<close>

definition first_pass_step :: "(date \<times> entry list) list \<Rightarrow> xlsx_file \<Rightarrow> (date \<times> entry list) list" where
  "first_pass_step parsed_by_date f =
     (case parse_flash_report (content f) of
        Inl e \<Rightarrow> parsed_by_date
      | Inr None \<Rightarrow> parsed_by_date
      | Inr (Some result) \<Rightarrow>
          setdefault_append parsed_by_date (res_date result)
            (basename f, mtime f, is_preferred (basename f), result))"

definition first_pass :: "xlsx_file list \<Rightarrow> (date \<times> entry list) list" where
  "first_pass files = foldl first_pass_step [] files"

text \<open>
  \<^verbatim>\<open>entries.sort(key=lambda e: (e[2], e[1]), reverse=True)\<close>: a stable sort, which with
  \<^verbatim>\<open>reverse=True\<close> reverses the list, sorts it in ascending order and reverses the result,
  so that entries with equal keys keep their order. Keys are pairs compared
  lexicographically, \<^verbatim>\<open>False\<close> before \<^verbatim>\<open>True\<close>.
\<close>

definition py_sort_reverse :: "('a \<Rightarrow> 'k::linorder) \<Rightarrow> 'a list \<Rightarrow> 'a list" where
  "py_sort_reverse key xs = rev (sort_key key (rev xs))"

definition sort_entries :: "entry list \<Rightarrow> entry list" where
  "sort_entries entries = py_sort_reverse (\<lambda>e. (entry_preferred e, entry_mtime e)) entries"

text \<open>\<^verbatim>\<open>winner = entries[0]\<close> after the sort; an empty list would raise \<^verbatim>\<open>IndexError\<close>.\<close>

definition pick_winner :: "entry list \<Rightarrow> pyerror + entry" where
  "pick_winner entries = (case sort_entries entries of [] \<Rightarrow> Inl IndexError | w # rest \<Rightarrow> Inr w)"

record collected =
  all_sales :: "pyrecord list"
  all_brand_totals :: "pyrecord list"
  all_transactions :: "pyrecord list"
  all_channels :: "pyrecord list"
  all_labor :: "pyrecord list"

definition collect_result :: "collected \<Rightarrow> parsed \<Rightarrow> collected" where
  "collect_result acc result =
     \<lparr>all_sales = all_sales acc @ res_sales result,
      all_brand_totals = all_brand_totals acc @ [res_brand_total result],
      all_transactions = all_transactions acc @ res_transactions result,
      all_channels = all_channels acc @ res_channels result,
      all_labor = all_labor acc @ res_labor result\<rparr>"

fun second_pass :: "collected \<Rightarrow> (date \<times> entry list) list \<Rightarrow> pyerror + collected" where
  "second_pass acc [] = Inr acc"
| "second_pass acc ((rdate, entries) # rest) =
     bind_err (pick_winner entries) (\<lambda>winner.
       second_pass (collect_result acc (entry_result winner)) rest)"

text \<open>
  A table is a pandas \<^verbatim>\<open>DataFrame\<close>: its column labels and its rows. \<^verbatim>\<open>pd.DataFrame(recs)\<close>
  of a list of dicts has for columns the keys of the dicts in order of first appearance
  and one row for each dict; \<^verbatim>\<open>pd.DataFrame()\<close> has no column and no row.
\<close>

record dataframe =
  df_columns :: "string list"
  df_rows :: "pyrecord list"

definition DataFrame :: "pyrecord list \<Rightarrow> dataframe" where
  "DataFrame recs = \<lparr>df_columns = rev (remdups (rev (concat (map (map fst) recs)))),
                     df_rows = recs\<rparr>"

definition DataFrame_empty :: dataframe where
  "DataFrame_empty = \<lparr>df_columns = [], df_rows = []\<rparr>"

definition frame_of :: "pyrecord list \<Rightarrow> dataframe" where
  "frame_of recs = (if recs \<noteq> [] then DataFrame recs else DataFrame_empty)"

text \<open>\<^verbatim>\<open>df.empty\<close>: one of the two axes has length 0.\<close>

definition df_empty :: "dataframe \<Rightarrow> bool" where
  "df_empty df = (df_rows df = [] \<or> df_columns df = [])"

text \<open>The value of a row in the \<^verbatim>\<open>date\<close> column. Every record the loader builds has
  one; the year 0 stands for a row without it.\<close>

definition date_key :: "pyrecord \<Rightarrow> date" where
  "date_key r = (case map_of r ''date'' of Some (VDate d) \<Rightarrow> d | _ \<Rightarrow> (0, 0, 0))"

text \<open>\<^verbatim>\<open>df.sort_values('date').reset_index(drop=True)\<close>, when the table is not empty and
  has a \<^verbatim>\<open>date\<close> column: the rows in ascending order of date. The rows of one date are
  kept here in the order they had.\<close>

definition sort_by_date :: "dataframe \<Rightarrow> dataframe" where
  "sort_by_date df =
     (if \<not> df_empty df \<and> ''date'' \<in> set (df_columns df)
      then df\<lparr>df_rows := sort_key date_key (df_rows df)\<rparr> else df)"

record tables =
  sales :: dataframe
  brand_totals :: dataframe
  transactions :: dataframe
  channels :: dataframe
  labor :: dataframe

definition empty_collected :: collected where
  "empty_collected = \<lparr>all_sales = [], all_brand_totals = [], all_transactions = [],
                      all_channels = [], all_labor = []\<rparr>"

definition make_tables :: "collected \<Rightarrow> tables" where
  "make_tables acc =
     \<lparr>sales = sort_by_date (frame_of (all_sales acc)),
      brand_totals = sort_by_date (frame_of (all_brand_totals acc)),
      transactions = sort_by_date (frame_of (all_transactions acc)),
      channels = sort_by_date (frame_of (all_channels acc)),
      labor = sort_by_date (frame_of (all_labor acc))\<rparr>"

definition load_all_reports :: "xlsx_file list \<Rightarrow> pyerror + tables" where
  "load_all_reports listing =
     bind_err (second_pass empty_collected (first_pass (glob_flash listing))) (\<lambda>acc.
       Inr (make_tables acc))"

section \<open>Example data\<close>

text \<open>A parse result with a date and no store rows, for use in examples.\<close>

definition bare_result :: "date \<Rightarrow> parsed" where
  "bare_result d = \<lparr>res_date = d, res_sales = [], res_brand_total = [(''date'', VDate d)],
                    res_transactions = [], res_channels = [], res_labor = []\<rparr>"

text \<open>The record of a row whose numeric cells are all blank.\<close>

definition zero_fields :: "(string \<times> nat \<times> coercion) list \<Rightarrow> pyrecord" where
  "zero_fields flds =
     map (\<lambda>(key, col, k). (key, case k of AsFloat \<Rightarrow> VFloat (Finite 0) | AsInt \<Rightarrow> VInt 0)) flds"

text \<open>Containment of a marker in a label whatever the letter case, as the specification
  words the row filter; the loader itself tests \<open>text_contains\<close>.\<close>

definition ci_contains :: "string \<Rightarrow> pystr \<Rightarrow> bool" where
  "ci_contains sub t = (case t of
       Str s \<Rightarrow> str_contains (map to_lower sub) (map to_lower s)
     | FloatRepr f \<Rightarrow> False)"

text \<open>The sheet \<open>ws\<close> with row \<open>r\<close> replaced by \<open>cells\<close>.\<close>

definition replace_row :: "sheet \<Rightarrow> nat \<Rightarrow> (nat \<Rightarrow> cell) \<Rightarrow> sheet" where
  "replace_row ws r cells = (\<lambda>row. if row = r then cells else ws row)"

text \<open>The sheet \<open>ws\<close> with the label of row \<open>r\<close> emptied.\<close>

definition blank_label :: "sheet \<Rightarrow> nat \<Rightarrow> sheet" where
  "blank_label ws r = (\<lambda>row col. if row = r \<and> col = 1 then CNone else ws row col)"

text \<open>The rows scanned for per-store records.\<close>

definition in_scan_range :: "nat \<Rightarrow> bool" where
  "in_scan_range r = (r \<in> set [8..<16] \<or> r \<in> set [54..<62] \<or> r \<in> set [66..<74] \<or> r \<in> set [78..<86])"

text \<open>A sheet with a date and one transactions row labelled in upper case.\<close>

definition upper_totals_sheet :: sheet where
  "upper_totals_sheet r c =
     (if r = 2 \<and> c = 1 then CStr ''Selected Date:2/22/2026''
      else if r = 54 \<and> c = 1 then CStr ''TOTALS'' else CNone)"

text \<open>A sheet with a date and one labor row labelled as totals, with a value.\<close>

definition totals_sheet :: sheet where
  "totals_sheet r c =
     (if r = 2 \<and> c = 1 then CStr ''Selected Date:2/22/2026''
      else if r = 85 \<and> c = 1 then CStr ''Store Totals''
      else if r = 85 \<and> c = 2 then CInt 7 else CNone)"

text \<open>A sheet with a date, a sales row labelled \<^verbatim>\<open>Brand\<close> that has a value, and an empty
  row 16.\<close>

definition brand_row_sheet :: sheet where
  "brand_row_sheet r c =
     (if r = 2 \<and> c = 1 then CStr ''Selected Date:2/22/2026''
      else if r = 9 \<and> c = 1 then CStr ''Brand''
      else if r = 9 \<and> c = 2 then CFloat (Finite 100) else CNone)"


text \<open>A file that parses: \<open>parse_flash_report\<close> returns a result, neither raising nor
  returning \<^verbatim>\<open>None\<close>. \<open>file_entry\<close> is the entry the first loop files for it, and
  \<open>parsed_entries\<close> the entries of a list of files in enumeration order.\<close>

definition parse_ok :: "xlsx_file \<Rightarrow> bool" where
  "parse_ok f = (case parse_flash_report (content f) of Inr (Some r) \<Rightarrow> True | _ \<Rightarrow> False)"

definition file_entry :: "xlsx_file \<Rightarrow> entry option" where
  "file_entry f = (case parse_flash_report (content f) of
       Inr (Some r) \<Rightarrow> Some (basename f, mtime f, is_preferred (basename f), r)
     | _ \<Rightarrow> None)"

definition entry_date :: "entry \<Rightarrow> date" where
  "entry_date e = res_date (entry_result e)"

definition parsed_entries :: "xlsx_file list \<Rightarrow> entry list" where
  "parsed_entries fs = List.map_filter file_entry fs"


text \<open>What the first loop builds from the entries \<open>es\<close>: the keys are distinct, and a
  date is a key when some entry has it, with the entries of that date in enumeration
  order.\<close>

definition grouped :: "(date \<times> entry list) list \<Rightarrow> entry list \<Rightarrow> bool" where
  "grouped d es \<longleftrightarrow>
     distinct (map fst d) \<and>
     (\<forall>k. map_of d k = (if filter (\<lambda>e. entry_date e = k) es = [] then None
                        else Some (filter (\<lambda>e. entry_date e = k) es)))"


text \<open>The problems of a single file that the specification names: the file cannot be
  read, the workbook has no sheet of the expected name, or the header cell has no date
  token.\<close>

definition single_file_problem :: "xlsx_file \<Rightarrow> bool" where
  "single_file_problem f = (case content f of
       Unreadable \<Rightarrow> True
     | Workbook wb \<Rightarrow>
         (case map_of wb ''Multibrand_DailyFlashReport'' of
            None \<Rightarrow> True
          | Some ws \<Rightarrow> \<not> truthy (ws 2 1) \<or> text_search_date (py_str (ws 2 1)) = None))"

text \<open>The columns of a sales table that has rows.\<close>

definition sales_columns :: "string list" where
  "sales_columns = ''date'' # ''store'' # map fst sales_fields"

text \<open>Example files: one that cannot be read, one without the sheet, one without a date,
  one that parses, and one that parses but whose name does not match the pattern.\<close>

definition no_date_sheet :: sheet where
  "no_date_sheet r c = (if r = 2 \<and> c = 1 then CStr ''Selected Date: none'' else CNone)"

definition unreadable_file :: xlsx_file where
  "unreadable_file = \<lparr>basename = ''Multibrand_FlashReport[1].xlsx'', mtime = 10, content = Unreadable\<rparr>"

definition wrong_sheet_file :: xlsx_file where
  "wrong_sheet_file = \<lparr>basename = ''Multibrand_FlashReport[2].xlsx'', mtime = 20,
                        content = Workbook [(''Sheet1'', brand_row_sheet)]\<rparr>"

definition no_date_file :: xlsx_file where
  "no_date_file = \<lparr>basename = ''Multibrand_FlashReport[3].xlsx'', mtime = 30,
                    content = Workbook [(''Multibrand_DailyFlashReport'', no_date_sheet)]\<rparr>"

definition good_file :: xlsx_file where
  "good_file = \<lparr>basename = ''Multibrand_FlashReport[4].xlsx'', mtime = 40,
                 content = Workbook [(''Multibrand_DailyFlashReport'', brand_row_sheet)]\<rparr>"

definition other_name_file :: xlsx_file where
  "other_name_file = \<lparr>basename = ''Weekly_Report.xlsx'', mtime = 50,
                       content = Workbook [(''Multibrand_DailyFlashReport'', brand_row_sheet)]\<rparr>"


text \<open>What \<open>good_file\<close> parses to, and the tables of a folder that holds only it.\<close>

definition good_result :: parsed where
  "good_result = \<lparr>res_date = (2026, 2, 22), res_sales = [],
                   res_brand_total = (''date'', VDate (2026, 2, 22)) # zero_fields sales_fields,
                   res_transactions = [], res_channels = [], res_labor = []\<rparr>"

definition good_tables :: tables where
  "good_tables =
     \<lparr>sales = \<lparr>df_columns = [], df_rows = []\<rparr>,
      brand_totals = \<lparr>df_columns = ''date'' # map fst sales_fields,
                       df_rows = [(''date'', VDate (2026, 2, 22)) # zero_fields sales_fields]\<rparr>,
      transactions = \<lparr>df_columns = [], df_rows = []\<rparr>,
      channels = \<lparr>df_columns = [], df_rows = []\<rparr>,
      labor = \<lparr>df_columns = [], df_rows = []\<rparr>\<rparr>"


text \<open>
  The date token of the specification: one or two digits, a slash, one or two digits, a
  slash and four digits. \<open>token_at s n\<close>: a token starts at position \<open>n\<close> of \<open>s\<close>.
  \<open>is_calendar_date\<close>: the three numbers are a date of the calendar.
\<close>

definition token_parts :: "string \<Rightarrow> string \<Rightarrow> string \<Rightarrow> bool" where
  "token_parts m d y \<longleftrightarrow>
     list_all is_digit m \<and> (length m = 1 \<or> length m = 2) \<and>
     list_all is_digit d \<and> (length d = 1 \<or> length d = 2) \<and>
     list_all is_digit y \<and> length y = 4"

definition date_token :: "string \<Rightarrow> string \<Rightarrow> string \<Rightarrow> string" where
  "date_token m d y = m @ ''/'' @ d @ ''/'' @ y"

definition token_at :: "string \<Rightarrow> nat \<Rightarrow> bool" where
  "token_at s n \<longleftrightarrow> (\<exists>m d y rest. token_parts m d y \<and> drop n s = date_token m d y @ rest)"

definition is_calendar_date :: "date \<Rightarrow> bool" where
  "is_calendar_date ymd =
     (case ymd of (y, m, d) \<Rightarrow> 1 \<le> y \<and> 1 \<le> m \<and> m \<le> 12 \<and> 1 \<le> d \<and> d \<le> days_in_month y m)"

definition token_date :: "string \<Rightarrow> string \<Rightarrow> string \<Rightarrow> date" where
  "token_date m d y = (nat_of_digits y, nat_of_digits m, nat_of_digits d)"

text \<open>A sheet whose header has a token that is not a date of the calendar.\<close>

definition day_first_sheet :: sheet where
  "day_first_sheet r c = (if r = 2 \<and> c = 1 then CStr ''Selected Date:13/1/2026'' else CNone)"


text \<open>
  A decimal numeral as a cell text: an optional minus sign, digits (at least one) and
  optionally a point followed by digits; \<open>decimal_value\<close> is the rational number that the
  numeral denotes.
\<close>

definition fraction_digits :: "string option \<Rightarrow> string" where
  "fraction_digits fp = (case fp of None \<Rightarrow> [] | Some f \<Rightarrow> f)"

definition decimal_parts :: "string \<Rightarrow> string option \<Rightarrow> bool" where
  "decimal_parts ip fp \<longleftrightarrow>
     ip \<noteq> [] \<and> list_all is_digit ip \<and> list_all is_digit (fraction_digits fp)"

definition decimal_text :: "bool \<Rightarrow> string \<Rightarrow> string option \<Rightarrow> string" where
  "decimal_text neg ip fp =
     (if neg then ''-'' else []) @ ip @ (case fp of None \<Rightarrow> [] | Some f \<Rightarrow> ''.'' @ f)"

definition decimal_value :: "bool \<Rightarrow> string \<Rightarrow> string option \<Rightarrow> rat" where
  "decimal_value neg ip fp =
     (let f = fraction_digits fp; q = of_nat (nat_of_digits (ip @ f)) / 10 ^ length f
      in if neg then - q else q)"

section \<open>Properties of the parser\<close>

lemma bind_err_simps [simp]:
  "bind_err (Inl e) f = Inl e" "bind_err (Inr x) f = f x"
  by (simp_all add: bind_err_def)

lemma bind_err_Inr_iff:
  "bind_err m f = Inr y \<longleftrightarrow> (\<exists>x. m = Inr x \<and> f x = Inr y)"
  by (cases m) simp_all

lemma safe_blank:
  "is_blank v \<Longrightarrow> safe_float v = Inr (Finite 0)" "is_blank v \<Longrightarrow> safe_int v = Inr 0"
  by (simp_all add: safe_float_def safe_float_default_def safe_int_def safe_int_default_def)

lemma coerce_blank:
  "is_blank v \<Longrightarrow> coerce k v = Inr (case k of AsFloat \<Rightarrow> VFloat (Finite 0) | AsInt \<Rightarrow> VInt 0)"
  by (cases k) (simp_all add: coerce_def safe_blank)

lemma read_fields_blank:
  "\<forall>f\<in>set flds. is_blank (ws row (fst (snd f))) \<Longrightarrow>
     read_fields ws row flds = Inr (zero_fields flds)"
proof (induction flds)
  case Nil
  then show ?case by (simp add: zero_fields_def)
next
  case (Cons f flds)
  obtain key col k where f: "f = (key, col, k)" by (cases f) auto
  from Cons.prems have b: "is_blank (ws row col)" by (simp add: f)
  from Cons have ih: "read_fields ws row flds = Inr (zero_fields flds)" by simp
  show ?case by (simp add: f coerce_blank[OF b] ih zero_fields_def)
qed

lemma read_fields_cong:
  "ws row = ws' row \<Longrightarrow> read_fields ws row flds = read_fields ws' row flds"
  by (induction flds) auto

lemma store_row_cong:
  assumes "ws r = ws' r"
  shows "store_row b flds ws d r = store_row b flds ws' d r"
proof -
  have "read_fields ws r flds = read_fields ws' r flds" using assms by (rule read_fields_cong)
  moreover have "ws r 1 = ws' r 1" using assms by simp
  ultimately show ?thesis by (simp add: store_row_def cong: if_cong)
qed

lemma store_row_skip:
  "\<not> truthy (ws r 1) \<or> text_contains ''Totals'' (py_str (ws r 1)) \<or>
     (b \<and> text_contains ''Brand'' (py_str (ws r 1))) \<Longrightarrow> store_row b flds ws d r = Inr None"
  by (auto simp: store_row_def Let_def)

lemma scan_rows_cong:
  "\<forall>r\<in>set rs. body r = body' r \<Longrightarrow> scan_rows body rs = scan_rows body' rs"
  by (induction rs) simp_all

lemma scan_rows_all_skipped:
  "\<forall>r\<in>set rs. body r = Inr None \<Longrightarrow> scan_rows body rs = Inr []"
  by (induction rs) simp_all

lemma date_example:
  "parse_date_from_cell (CStr ''Selected Date:2/22/2026'') = Inr (Some (2026, 2, 22))"
  by (simp add: parse_date_from_cell_def truthy_def py_str_def text_search_date_def
      match_date_here_def try_match_def is_digit_def strptime_mdY_def digit_val_def
      days_in_month_def is_leap_def Let_def)

lemma blank_label_other_row:
  "row \<noteq> r \<Longrightarrow> blank_label ws r row = ws row"
  by (rule ext) (simp add: blank_label_def)

lemma store_row_blank_label:
  assumes "text_contains ''Totals'' (py_str (ws r 1)) \<or> (b \<and> text_contains ''Brand'' (py_str (ws r 1)))"
  shows "store_row b flds (blank_label ws r) d row = store_row b flds ws d row"
proof (cases "row = r")
  case True
  have "store_row b flds (blank_label ws r) d r = Inr None"
    by (rule store_row_skip) (simp add: blank_label_def truthy_def)
  moreover have "store_row b flds ws d r = Inr None"
    using assms by (intro store_row_skip) blast
  ultimately show ?thesis using True by simp
next
  case False
  then show ?thesis by (intro store_row_cong blank_label_other_row)
qed

lemma parse_sheet_blank_label:
  assumes m: "text_contains ''Totals'' (py_str (ws r 1))" and r: "r \<noteq> 2" "r \<noteq> 16"
  shows "parse_sheet (blank_label ws r) = parse_sheet ws"
proof -
  have a2: "blank_label ws r 2 1 = ws 2 1" using r by (simp add: blank_label_def)
  have "blank_label ws r 16 = ws 16" using r(2) by (intro blank_label_other_row) simp
  then have "read_fields (blank_label ws r) 16 sales_fields = read_fields ws 16 sales_fields"
    by (rule read_fields_cong)
  then have bt: "brand_total_row (blank_label ws r) d = brand_total_row ws d" for d
    by (simp add: brand_total_row_def)
  have sc: "scan_rows (store_row b flds (blank_label ws r) d) rs = scan_rows (store_row b flds ws d) rs"
    for b flds d rs
    using m by (intro scan_rows_cong ballI store_row_blank_label) simp
  show ?thesis
    unfolding parse_sheet_def sales_row_def trans_row_def channel_row_def labor_row_def
    by (simp only: a2 bt sc cong: option.case_cong)
qed

text \<open>
  C2, as stated, fails: the test is the case-sensitive \<^verbatim>\<open>'Totals' in str(store_name)\<close>.
  A transactions row labelled \<^verbatim>\<open>TOTALS\<close> contains the marker when letter case is
  ignored, and it is kept as a store record.
\<close>

theorem totals_any_case_counterexample:
  "in_scan_range 54 \<and> ci_contains ''Totals'' (py_str (upper_totals_sheet 54 1)) \<and>
   trans_row upper_totals_sheet (2026, 2, 22) 54 =
     Inr (Some ((''date'', VDate (2026, 2, 22)) # (''store'', VStr (Str ''TOTALS'')) #
                zero_fields trans_fields))"
proof -
  have 1: "in_scan_range 54" by (simp add: in_scan_range_def)
  have 2: "ci_contains ''Totals'' (py_str (upper_totals_sheet 54 1))"
    by (simp add: ci_contains_def upper_totals_sheet_def py_str_def to_lower_def)
  have 3: "read_fields upper_totals_sheet 54 trans_fields = Inr (zero_fields trans_fields)"
    by (rule read_fields_blank) (simp add: trans_fields_def upper_totals_sheet_def is_blank_def)
  have 4: "trans_row upper_totals_sheet (2026, 2, 22) 54 =
     Inr (Some ((''date'', VDate (2026, 2, 22)) # (''store'', VStr (Str ''TOTALS'')) #
                zero_fields trans_fields))"
    unfolding trans_row_def store_row_def 3
    by (simp add: upper_totals_sheet_def truthy_def py_str_def text_contains_def text_strip_def
        strip_def is_space_def)
  show ?thesis using 1 2 4 by simp
qed

text \<open>
  C2, amended: a row of a scan range whose label text contains \<^verbatim>\<open>Totals\<close> exactly as
  written (case-sensitive, at any position) gives no record in any of the four loops, and
  the whole parse is the one of the sheet where that label is empty.
\<close>

theorem totals_rows_excluded:
  assumes "in_scan_range r" and "text_contains ''Totals'' (py_str (ws r 1))"
  shows "sales_row ws d r = Inr None \<and> trans_row ws d r = Inr None \<and>
         channel_row ws d r = Inr None \<and> labor_row ws d r = Inr None \<and>
         parse_sheet (blank_label ws r) = parse_sheet ws"
proof -
  have r: "r \<noteq> 2" "r \<noteq> 16" using assms(1) by (auto simp: in_scan_range_def)
  have s: "store_row b flds ws d r = Inr None" for b flds
    using assms(2) by (intro store_row_skip) blast
  show ?thesis
    unfolding sales_row_def trans_row_def channel_row_def labor_row_def
    using s parse_sheet_blank_label[of ws r, OF assms(2) r] by simp
qed

theorem totals_rows_excluded_witness:
  "in_scan_range 85 \<and> text_contains ''Totals'' (py_str (totals_sheet 85 1)) \<and>
   labor_row totals_sheet (2026, 2, 22) 85 = Inr None \<and>
   parse_sheet (blank_label totals_sheet 85) = parse_sheet totals_sheet"
proof -
  have 1: "in_scan_range 85" by (simp add: in_scan_range_def)
  have 2: "text_contains ''Totals'' (py_str (totals_sheet 85 1))"
    by (simp add: text_contains_def totals_sheet_def py_str_def)
  from totals_rows_excluded[of 85 totals_sheet "(2026, 2, 22)"] 1 2 show ?thesis by simp
qed

lemma parse_sheet_SomeD:
  assumes "parse_sheet ws = Inr (Some p)"
  shows "parse_date_from_cell (ws 2 1) = Inr (Some (res_date p))"
    and "scan_rows (sales_row ws (res_date p)) [8..<16] = Inr (res_sales p)"
    and "brand_total_row ws (res_date p) = Inr (res_brand_total p)"
    and "scan_rows (trans_row ws (res_date p)) [54..<62] = Inr (res_transactions p)"
    and "scan_rows (channel_row ws (res_date p)) [66..<74] = Inr (res_channels p)"
    and "scan_rows (labor_row ws (res_date p)) [78..<86] = Inr (res_labor p)"
proof -
  from assms obtain rd where rd: "parse_date_from_cell (ws 2 1) = Inr rd"
    unfolding parse_sheet_def by (cases "parse_date_from_cell (ws 2 1)") simp_all
  with assms obtain d where d: "rd = Some d"
    unfolding parse_sheet_def by (cases rd) simp_all
  let ?s = "scan_rows (sales_row ws d) [8..<16]"
  let ?b = "brand_total_row ws d"
  let ?t = "scan_rows (trans_row ws d) [54..<62]"
  let ?c = "scan_rows (channel_row ws d) [66..<74]"
  let ?l = "scan_rows (labor_row ws d) [78..<86]"
  have eq: "bind_err ?s (\<lambda>sales_records. bind_err ?b (\<lambda>brand_total. bind_err ?t (\<lambda>trans_records.
            bind_err ?c (\<lambda>channel_records. bind_err ?l (\<lambda>labor_records.
              Inr (Some \<lparr>res_date = d, res_sales = sales_records,
                         res_brand_total = brand_total, res_transactions = trans_records,
                         res_channels = channel_records, res_labor = labor_records\<rparr>))))))
            = Inr (Some p)"
    using assms unfolding parse_sheet_def rd d by simp
  then obtain s where s: "?s = Inr s" by (cases ?s) simp_all
  with eq obtain b where b: "?b = Inr b" by (cases ?b) simp_all
  with eq s obtain t where t: "?t = Inr t" by (cases ?t) simp_all
  with eq s b obtain c where c: "?c = Inr c" by (cases ?c) simp_all
  with eq s b t obtain l where l: "?l = Inr l" by (cases ?l) simp_all
  from eq have p: "p = \<lparr>res_date = d, res_sales = s, res_brand_total = b, res_transactions = t,
                        res_channels = c, res_labor = l\<rparr>"
    unfolding s b t c l by simp
  show "parse_date_from_cell (ws 2 1) = Inr (Some (res_date p))" using rd by (simp add: d p)
  show "scan_rows (sales_row ws (res_date p)) [8..<16] = Inr (res_sales p)" using s by (simp add: p)
  show "brand_total_row ws (res_date p) = Inr (res_brand_total p)" using b by (simp add: p)
  show "scan_rows (trans_row ws (res_date p)) [54..<62] = Inr (res_transactions p)"
    using t by (simp add: p)
  show "scan_rows (channel_row ws (res_date p)) [66..<74] = Inr (res_channels p)"
    using c by (simp add: p)
  show "scan_rows (labor_row ws (res_date p)) [78..<86] = Inr (res_labor p)" using l by (simp add: p)
qed

lemma replace_row_other:
  "row \<noteq> r \<Longrightarrow> replace_row ws r cells row = ws row"
  by (simp add: replace_row_def)

text \<open>
  C7, as stated, fails: a sales row labelled \<^verbatim>\<open>Brand\<close> is skipped and its cells are read
  by nobody. Here row 9 is labelled \<^verbatim>\<open>Brand\<close> and holds 100 in its first numeric column,
  row 16 is empty, and the brand totals are all 0.
\<close>

theorem brand_row_counterexample:
  "text_contains ''Brand'' (py_str (brand_row_sheet 9 1)) \<and>
   safe_float (brand_row_sheet 9 2) = Inr (Finite 100) \<and>
   sales_row brand_row_sheet (2026, 2, 22) 9 = Inr None \<and>
   brand_total_row brand_row_sheet (2026, 2, 22) =
     Inr ((''date'', VDate (2026, 2, 22)) # zero_fields sales_fields) \<and>
   map_of (zero_fields sales_fields) ''day_sales_ty'' = Some (VFloat (Finite 0))"
proof -
  have 1: "text_contains ''Brand'' (py_str (brand_row_sheet 9 1))"
    by (simp add: text_contains_def brand_row_sheet_def py_str_def)
  have 2: "safe_float (brand_row_sheet 9 2) = Inr (Finite 100)"
    by (simp add: brand_row_sheet_def safe_float_def safe_float_default_def is_blank_def
        py_float_def catch_value_type_def)
  have 3: "sales_row brand_row_sheet (2026, 2, 22) 9 = Inr None"
    unfolding sales_row_def using 1 by (intro store_row_skip) simp
  have "read_fields brand_row_sheet 16 sales_fields = Inr (zero_fields sales_fields)"
    by (rule read_fields_blank) (simp add: sales_fields_def brand_row_sheet_def is_blank_def)
  then have 4: "brand_total_row brand_row_sheet (2026, 2, 22) =
     Inr ((''date'', VDate (2026, 2, 22)) # zero_fields sales_fields)"
    by (simp add: brand_total_row_def)
  have 5: "map_of (zero_fields sales_fields) ''day_sales_ty'' = Some (VFloat (Finite 0))"
    by (simp add: zero_fields_def sales_fields_def)
  show ?thesis using 1 2 3 4 5 by simp
qed

text \<open>
  C7, amended: a sales row whose label text contains \<^verbatim>\<open>Brand\<close> gives no sales record.
  The brand totals of a parsed sheet are the date and the coerced cells of row 16, and
  they stay the same whatever another row holds.
\<close>

theorem brand_rows_excluded:
  assumes "text_contains ''Brand'' (py_str (ws r 1))"
  shows "sales_row ws d r = Inr None \<and>
         (\<forall>p. parse_sheet ws = Inr (Some p) \<longrightarrow>
              bind_err (read_fields ws 16 sales_fields)
                (\<lambda>fs. Inr ((''date'', VDate (res_date p)) # fs)) = Inr (res_brand_total p)) \<and>
         (\<forall>cells. r \<noteq> 16 \<longrightarrow> brand_total_row (replace_row ws r cells) d = brand_total_row ws d)"
proof (intro conjI allI impI)
  show "sales_row ws d r = Inr None"
    unfolding sales_row_def using assms by (intro store_row_skip) simp
next
  fix p assume "parse_sheet ws = Inr (Some p)"
  from parse_sheet_SomeD(3)[OF this]
  show "bind_err (read_fields ws 16 sales_fields)
          (\<lambda>fs. Inr ((''date'', VDate (res_date p)) # fs)) = Inr (res_brand_total p)"
    by (simp add: brand_total_row_def)
next
  fix cells assume "r \<noteq> 16"
  then have "replace_row ws r cells 16 = ws 16" by (intro replace_row_other) simp
  then have "read_fields (replace_row ws r cells) 16 sales_fields = read_fields ws 16 sales_fields"
    by (rule read_fields_cong)
  then show "brand_total_row (replace_row ws r cells) d = brand_total_row ws d"
    by (simp add: brand_total_row_def)
qed

lemma brand_row_sheet_parse:
  "parse_sheet brand_row_sheet =
     Inr (Some \<lparr>res_date = (2026, 2, 22), res_sales = [],
                res_brand_total = (''date'', VDate (2026, 2, 22)) # zero_fields sales_fields,
                res_transactions = [], res_channels = [], res_labor = []\<rparr>)"
proof -
  let ?d = "(2026, 2, 22) :: date"
  have d: "parse_date_from_cell (brand_row_sheet 2 1) = Inr (Some ?d)"
    by (simp add: brand_row_sheet_def date_example)
  have skip: "store_row b flds brand_row_sheet ?d r = Inr None" if "b \<or> r \<noteq> 9" "r \<noteq> 2" for b flds r
    using that
    by (intro store_row_skip) (auto simp: brand_row_sheet_def truthy_def text_contains_def py_str_def)
  have s: "scan_rows (sales_row brand_row_sheet ?d) [8..<16] = Inr []"
    unfolding sales_row_def by (intro scan_rows_all_skipped ballI skip) auto
  have t: "scan_rows (trans_row brand_row_sheet ?d) [54..<62] = Inr []"
    unfolding trans_row_def by (intro scan_rows_all_skipped ballI skip) auto
  have c: "scan_rows (channel_row brand_row_sheet ?d) [66..<74] = Inr []"
    unfolding channel_row_def by (intro scan_rows_all_skipped ballI skip) auto
  have l: "scan_rows (labor_row brand_row_sheet ?d) [78..<86] = Inr []"
    unfolding labor_row_def by (intro scan_rows_all_skipped ballI skip) auto
  have "read_fields brand_row_sheet 16 sales_fields = Inr (zero_fields sales_fields)"
    by (rule read_fields_blank) (simp add: sales_fields_def brand_row_sheet_def is_blank_def)
  then have b: "brand_total_row brand_row_sheet ?d = Inr ((''date'', VDate ?d) # zero_fields sales_fields)"
    by (simp add: brand_total_row_def)
  show ?thesis unfolding parse_sheet_def d by (simp only: bind_err_simps option.case s t c l b)
qed

theorem brand_rows_excluded_witness:
  "text_contains ''Brand'' (py_str (brand_row_sheet 9 1)) \<and>
   sales_row brand_row_sheet (2026, 2, 22) 9 = Inr None \<and>
   parse_sheet brand_row_sheet =
     Inr (Some \<lparr>res_date = (2026, 2, 22), res_sales = [],
                res_brand_total = (''date'', VDate (2026, 2, 22)) # zero_fields sales_fields,
                res_transactions = [], res_channels = [], res_labor = []\<rparr>) \<and>
   bind_err (read_fields brand_row_sheet 16 sales_fields)
     (\<lambda>fs. Inr ((''date'', VDate (2026, 2, 22)) # fs)) =
     Inr ((''date'', VDate (2026, 2, 22)) # zero_fields sales_fields) \<and>
   (9 :: nat) \<noteq> 16 \<and>
   brand_total_row (replace_row brand_row_sheet 9 (brand_row_sheet 8)) (2026, 2, 22) =
     brand_total_row brand_row_sheet (2026, 2, 22)"
proof -
  have 1: "text_contains ''Brand'' (py_str (brand_row_sheet 9 1))"
    by (simp add: text_contains_def brand_row_sheet_def py_str_def)
  note th = brand_rows_excluded[of brand_row_sheet 9 "(2026, 2, 22)", OF 1]
  from th have a: "sales_row brand_row_sheet (2026, 2, 22) 9 = Inr None" by (rule conjunct1)
  from th brand_row_sheet_parse
  have b: "bind_err (read_fields brand_row_sheet 16 sales_fields)
     (\<lambda>fs. Inr ((''date'', VDate (2026, 2, 22)) # fs)) =
     Inr ((''date'', VDate (2026, 2, 22)) # zero_fields sales_fields)" by fastforce
  from th have c: "brand_total_row (replace_row brand_row_sheet 9 (brand_row_sheet 8)) (2026, 2, 22) =
     brand_total_row brand_row_sheet (2026, 2, 22)" by simp
  show ?thesis using 1 a b c brand_row_sheet_parse by simp
qed

section \<open>Properties of the coercions\<close>

lemma coercion_defaults:
  "is_blank v \<Longrightarrow> safe_float v = Inr (Finite 0) \<and> safe_int v = Inr 0"
  "py_float v = Inl ValueError \<or> py_float v = Inl TypeError \<Longrightarrow>
     safe_float v = Inr (Finite 0) \<and> safe_int v = Inr 0"
  by (auto simp: safe_float_def safe_float_default_def safe_int_def safe_int_default_def
      catch_value_type_def)

lemma float_of_inf: "float_of_string ''inf'' = Some PosInf"
  by (simp add: float_of_string_def strip_def is_space_def drop_underscores_def is_digit_def
      parse_sign_def to_lower_def)

text \<open>
  C4: the coercions are meant never to raise (both docstrings say "safely"), and the
  defaults are as claimed (\<open>coercion_defaults\<close>). But \<^verbatim>\<open>int(float(val))\<close> raises
  \<^verbatim>\<open>OverflowError\<close> on an infinity, which \<^verbatim>\<open>except (ValueError, TypeError)\<close> does not catch:
  the text \<^verbatim>\<open>inf\<close> and the float infinity both leave \<open>safe_int\<close> with that error.
\<close>

theorem safe_int_raises_on_infinity:
  "safe_int (CStr ''inf'') = Inl OverflowError \<and> safe_int (CFloat PosInf) = Inl OverflowError"
  by (simp add: safe_int_def safe_int_default_def is_blank_def float_of_inf py_float_def
      py_int_of_float_def catch_value_type_def)

section \<open>Properties of the aggregator\<close>

subsection \<open>The sort and the winner\<close>

lemma last_sorted_max:
  "xs \<noteq> [] \<Longrightarrow> sorted (map f xs) \<Longrightarrow> x \<in> set xs \<Longrightarrow> f x \<le> f (last xs)"
  by (induction xs) (auto split: if_splits)

lemma last_filter_same_key:
  "xs \<noteq> [] \<Longrightarrow> last (filter (\<lambda>y. f y = f (last xs)) xs) = last xs"
  by (cases xs rule: rev_cases) auto

lemma hd_filter_split:
  "filter P xs \<noteq> [] \<Longrightarrow>
     \<exists>pre post. xs = pre @ hd (filter P xs) # post \<and> (\<forall>e\<in>set pre. \<not> P e)"
proof (induction xs)
  case Nil
  then show ?case by simp
next
  case (Cons x xs)
  show ?case
  proof (cases "P x")
    case True
    then have "x # xs = [] @ hd (filter P (x # xs)) # xs" by simp
    then show ?thesis by (metis empty_iff list.set(1))
  next
    case False
    with Cons obtain pre post where
      "xs = pre @ hd (filter P xs) # post" "\<forall>e\<in>set pre. \<not> P e" by auto
    with False have "x # xs = (x # pre) @ hd (filter P (x # xs)) # post \<and> (\<forall>e\<in>set (x # pre). \<not> P e)"
      by simp
    then show ?thesis by blast
  qed
qed

lemma py_sort_reverse_facts:
  assumes ne: "xs \<noteq> []"
  shows "py_sort_reverse f xs \<noteq> []"
    and "hd (py_sort_reverse f xs) \<in> set xs"
    and "\<forall>x\<in>set xs. f x \<le> f (hd (py_sort_reverse f xs))"
    and "hd (py_sort_reverse f xs) = hd (filter (\<lambda>y. f y = f (hd (py_sort_reverse f xs))) xs)"
proof -
  let ?s = "sort_key f (rev xs)"
  let ?w = "hd (py_sort_reverse f xs)"
  have sne: "?s \<noteq> []" using ne by (metis length_0_conv length_rev length_sort)
  then show "py_sort_reverse f xs \<noteq> []" by (simp add: py_sort_reverse_def)
  have w: "?w = last ?s" using sne by (simp add: py_sort_reverse_def hd_rev)
  show win: "?w \<in> set xs" using sne w by (metis last_in_set set_rev set_sort)
  show "\<forall>x\<in>set xs. f x \<le> f ?w"
    using last_sorted_max[OF sne, of f] w by (metis set_rev set_sort sorted_sort_key)
  have "last (filter (\<lambda>y. f y = f ?w) ?s) = ?w"
    using last_filter_same_key[OF sne, of f] w by simp
  then have l: "last (filter (\<lambda>y. f y = f ?w) (rev xs)) = ?w" by (simp add: sort_key_stable)
  have fne: "filter (\<lambda>y. f y = f ?w) xs \<noteq> []" using win by (auto simp: filter_empty_conv)
  have "last (rev (filter (\<lambda>y. f y = f ?w) xs)) = ?w" using l by (simp add: rev_filter)
  then show "?w = hd (filter (\<lambda>y. f y = f ?w) xs)" using fne by (simp add: last_rev)
qed

lemma py_sort_reverse_descending:
  "sorted_wrt (\<lambda>a b. f b \<le> f a) (py_sort_reverse f xs)"
proof -
  have "sorted_wrt (\<lambda>a b. f a \<le> f b) (sort_key f (rev xs))"
    using sorted_sort_key[of f "rev xs"] by (simp add: sorted_map)
  then show ?thesis by (simp add: py_sort_reverse_def sorted_wrt_rev)
qed

lemma pick_winner_nonempty:
  "entries \<noteq> [] \<Longrightarrow> pick_winner entries = Inr (hd (sort_entries entries))"
  using py_sort_reverse_facts(1)[of entries "\<lambda>e. (entry_preferred e, entry_mtime e)"]
  by (cases "sort_entries entries") (auto simp: pick_winner_def sort_entries_def)

text \<open>
  C1. The candidates of a date are sorted by preference and then by modification time,
  both descending, and the first is the winner: a preferred candidate is never beaten by
  one that is not preferred, among candidates of the winner's preference none is newer,
  and no candidate earlier in the enumeration has the winner's preference and time.
\<close>

theorem winner_selection:
  assumes "entries \<noteq> []"
  shows "\<exists>w pre post.
           pick_winner entries = Inr w \<and> w = hd (sort_entries entries) \<and>
           sorted_wrt (\<lambda>a b. (entry_preferred b, entry_mtime b) \<le> (entry_preferred a, entry_mtime a))
             (sort_entries entries) \<and>
           entries = pre @ w # post \<and>
           (\<forall>e\<in>set entries. entry_preferred e \<longrightarrow> entry_preferred w) \<and>
           (\<forall>e\<in>set entries. entry_preferred e = entry_preferred w \<longrightarrow> entry_mtime e \<le> entry_mtime w) \<and>
           (\<forall>e\<in>set pre. \<not> (entry_preferred e = entry_preferred w \<and> entry_mtime e = entry_mtime w))"
proof -
  let ?k = "\<lambda>e. (entry_preferred e, entry_mtime e)"
  let ?w = "hd (sort_entries entries)"
  have w: "pick_winner entries = Inr ?w" using assms by (rule pick_winner_nonempty)
  have srt: "sorted_wrt (\<lambda>a b. ?k b \<le> ?k a) (sort_entries entries)"
    unfolding sort_entries_def by (rule py_sort_reverse_descending)
  have mx: "\<forall>e\<in>set entries. ?k e \<le> ?k ?w"
    using py_sort_reverse_facts(3)[OF assms, of ?k] by (simp add: sort_entries_def)
  have win: "?w \<in> set entries"
    using py_sort_reverse_facts(2)[OF assms, of ?k] by (simp add: sort_entries_def)
  have hdf: "?w = hd (filter (\<lambda>y. ?k y = ?k ?w) entries)"
    using py_sort_reverse_facts(4)[OF assms, of ?k] by (simp add: sort_entries_def)
  have "filter (\<lambda>y. ?k y = ?k ?w) entries \<noteq> []" using win by (auto simp: filter_empty_conv)
  from hd_filter_split[OF this] obtain pre post where
    sp0: "entries = pre @ hd (filter (\<lambda>y. ?k y = ?k ?w) entries) # post"
    and pre: "\<forall>e\<in>set pre. \<not> ?k e = ?k ?w" by blast
  have sp: "entries = pre @ ?w # post" using sp0 hdf by simp
  have key: "entry_preferred e < entry_preferred ?w \<or>
             (entry_preferred e \<le> entry_preferred ?w \<and> entry_mtime e \<le> entry_mtime ?w)"
    if "e \<in> set entries" for e
    using mx that by (simp add: less_eq_prod_def)
  have p1: "\<forall>e\<in>set entries. entry_preferred e \<longrightarrow> entry_preferred ?w"
  proof (intro ballI impI)
    fix e assume "e \<in> set entries" "entry_preferred e"
    with key[of e] show "entry_preferred ?w" by (simp add: less_bool_def le_bool_def)
  qed
  have p2: "\<forall>e\<in>set entries. entry_preferred e = entry_preferred ?w \<longrightarrow> entry_mtime e \<le> entry_mtime ?w"
  proof (intro ballI impI)
    fix e assume "e \<in> set entries" "entry_preferred e = entry_preferred ?w"
    with key[of e] show "entry_mtime e \<le> entry_mtime ?w" by simp
  qed
  have p3: "\<forall>e\<in>set pre. \<not> (entry_preferred e = entry_preferred ?w \<and> entry_mtime e = entry_mtime ?w)"
    using pre by simp
  show ?thesis
    by (intro exI[of _ ?w] exI[of _ pre] exI[of _ post] conjI)
       (rule w, rule refl, rule srt, rule sp, rule p1, rule p2, rule p3)
qed

theorem winner_selection_witness:
  "pick_winner [(''Multibrand_FlashReport[50].xlsx'', 2000, False, bare_result (2026, 6, 1)),
                (''Multibrand_FlashReport[74].xlsx'', 1000, True, bare_result (2026, 6, 1))]
   = Inr (''Multibrand_FlashReport[74].xlsx'', 1000, True, bare_result (2026, 6, 1))"
proof -
  let ?a = "(''Multibrand_FlashReport[50].xlsx'', 2000 :: rat, False, bare_result (2026, 6, 1))"
  let ?b = "(''Multibrand_FlashReport[74].xlsx'', 1000 :: rat, True, bare_result (2026, 6, 1))"
  have ne: "[?a, ?b] \<noteq> []" by simp
  from winner_selection[OF ne] obtain w pre post where
    w: "pick_winner [?a, ?b] = Inr w" and sp: "[?a, ?b] = pre @ w # post"
    and pr: "\<forall>e\<in>set [?a, ?b]. entry_preferred e \<longrightarrow> entry_preferred w" by blast
  have "w \<in> set [?a, ?b]" by (subst sp) simp
  then have "w = ?a \<or> w = ?b" by simp
  moreover have "entry_preferred w" using pr by (simp add: entry_preferred_def)
  ultimately have "w = ?b" by (auto simp: entry_preferred_def)
  with w show ?thesis by simp
qed

subsection \<open>Grouping by date\<close>

lemma first_pass_step_entry:
  "first_pass_step d f =
     (case file_entry f of None \<Rightarrow> d | Some e \<Rightarrow> setdefault_append d (entry_date e) e)"
  by (auto simp: first_pass_step_def file_entry_def entry_date_def entry_result_def
      split: sum.splits option.splits)

lemma file_entry_parse_ok: "file_entry f = None \<longleftrightarrow> \<not> parse_ok f"
  by (auto simp: file_entry_def parse_ok_def split: sum.splits option.splits)

lemma keys_setdefault_append:
  "map fst (setdefault_append d k v) = (if k \<in> fst ` set d then map fst d else map fst d @ [k])"
  by (induction d k v rule: setdefault_append.induct) (auto simp: image_iff)

lemma map_of_setdefault_append:
  "map_of (setdefault_append d k v) k' =
     (if k' = k then Some ((case map_of d k of None \<Rightarrow> [] | Some vs \<Rightarrow> vs) @ [v])
      else map_of d k')"
  by (induction d k v rule: setdefault_append.induct) auto

lemma groupedD:
  assumes "grouped d es"
  shows "distinct (map fst d)"
    and "map_of d k = (if filter (\<lambda>e. entry_date e = k) es = [] then None
                       else Some (filter (\<lambda>e. entry_date e = k) es))"
proof -
  from assms show "distinct (map fst d)" unfolding grouped_def by (rule conjunct1)
  from assms have "\<forall>k. map_of d k = (if filter (\<lambda>e. entry_date e = k) es = [] then None
                       else Some (filter (\<lambda>e. entry_date e = k) es))"
    unfolding grouped_def by (rule conjunct2)
  then show "map_of d k = (if filter (\<lambda>e. entry_date e = k) es = [] then None
                       else Some (filter (\<lambda>e. entry_date e = k) es))" by (rule spec)
qed

lemma groupedI:
  assumes "distinct (map fst d)"
    and "\<And>k. map_of d k = (if filter (\<lambda>e. entry_date e = k) es = [] then None
                       else Some (filter (\<lambda>e. entry_date e = k) es))"
  shows "grouped d es"
  unfolding grouped_def using assms by (intro conjI allI)

lemma grouped_step:
  assumes "grouped d es"
  shows "grouped (setdefault_append d (entry_date e) e) (es @ [e])"
proof -
  let ?k = "entry_date e"
  let ?d' = "setdefault_append d ?k e"
  let ?F = "\<lambda>k es. filter (\<lambda>x. entry_date x = k) es"
  note dist = groupedD(1)[OF assms]
  have look: "map_of d k = (if ?F k es = [] then None else Some (?F k es))" for k
    by (rule groupedD(2)[OF assms])
  have "?k \<in> fst ` set d \<longleftrightarrow> map_of d ?k \<noteq> None" by (simp add: map_of_eq_None_iff)
  then have 1: "distinct (map fst ?d')"
    using dist by (auto simp: keys_setdefault_append map_of_eq_None_iff)
  have old: "(case map_of d ?k of None \<Rightarrow> [] | Some vs \<Rightarrow> vs) = ?F ?k es"
    by (simp add: look)
  have 2: "map_of ?d' k = (if ?F k (es @ [e]) = [] then None else Some (?F k (es @ [e])))" for k
  proof (cases "k = ?k")
    case True
    then show ?thesis by (simp add: map_of_setdefault_append old)
  next
    case False
    then have "?F k (es @ [e]) = ?F k es" by auto
    then show ?thesis using False by (simp add: map_of_setdefault_append look)
  qed
  show ?thesis using 1 2 by (rule groupedI)
qed

lemma grouped_member:
  assumes "grouped d es" and "kv \<in> set d"
  shows "snd kv = filter (\<lambda>e. entry_date e = fst kv) es" and "snd kv \<noteq> []"
proof -
  note dist = groupedD(1)[OF assms(1)]
  note look = groupedD(2)[OF assms(1), of "fst kv"]
  have "map_of d (fst kv) = Some (snd kv)"
    using dist assms(2) by (intro map_of_is_SomeI) simp_all
  with look show "snd kv = filter (\<lambda>e. entry_date e = fst kv) es" and "snd kv \<noteq> []"
    by (auto split: if_splits)
qed

lemma grouped_keys:
  assumes "grouped d es"
  shows "distinct (map fst d)" and "set (map fst d) = entry_date ` set es"
proof -
  show "distinct (map fst d)" by (rule groupedD(1)[OF assms])
  have "k \<in> fst ` set d \<longleftrightarrow> k \<in> entry_date ` set es" for k
  proof -
    have "k \<in> fst ` set d \<longleftrightarrow> map_of d k \<noteq> None" by (simp add: map_of_eq_None_iff)
    also have "\<dots> \<longleftrightarrow> filter (\<lambda>e. entry_date e = k) es \<noteq> []"
      by (simp add: groupedD(2)[OF assms])
    also have "\<dots> \<longleftrightarrow> k \<in> entry_date ` set es" by (auto simp: filter_empty_conv)
    finally show ?thesis .
  qed
  then have "fst ` set d = entry_date ` set es" by (rule set_eqI)
  then show "set (map fst d) = entry_date ` set es" by simp
qed

lemma first_pass_snoc:
  "first_pass (fs @ [f]) = first_pass_step (first_pass fs) f"
  by (simp add: first_pass_def)

lemma parsed_entries_snoc:
  "parsed_entries (fs @ [f]) =
     parsed_entries fs @ (case file_entry f of None \<Rightarrow> [] | Some e \<Rightarrow> [e])"
  by (simp add: parsed_entries_def List.map_filter_def split: option.splits)

lemma first_pass_grouped: "grouped (first_pass fs) (parsed_entries fs)"
proof (induction fs rule: rev_induct)
  case Nil
  show ?case by (rule groupedI) (simp_all add: first_pass_def parsed_entries_def List.map_filter_def)
next
  case (snoc f fs)
  show ?case
  proof (cases "file_entry f")
    case None
    then show ?thesis using snoc
      by (simp add: first_pass_snoc parsed_entries_snoc first_pass_step_entry)
  next
    case (Some e)
    then show ?thesis using grouped_step[OF snoc, of e]
      by (simp add: first_pass_snoc parsed_entries_snoc first_pass_step_entry)
  qed
qed

lemma first_pass_filter_ok: "first_pass (filter parse_ok fs) = first_pass fs"
proof (induction fs rule: rev_induct)
  case Nil
  show ?case by simp
next
  case (snoc f fs)
  show ?case
  proof (cases "parse_ok f")
    case True
    then show ?thesis using snoc by (simp add: first_pass_snoc)
  next
    case False
    then have "file_entry f = None" by (simp add: file_entry_parse_ok)
    then show ?thesis using snoc False by (simp add: first_pass_snoc first_pass_step_entry)
  qed
qed

lemma first_pass_none_ok:
  "\<forall>f\<in>set fs. \<not> parse_ok f \<Longrightarrow> first_pass fs = []"
proof -
  assume "\<forall>f\<in>set fs. \<not> parse_ok f"
  then have "filter parse_ok fs = []" by (simp add: filter_empty_conv)
  with first_pass_filter_ok[of fs] show ?thesis by (simp add: first_pass_def)
qed

subsection \<open>Collecting the winners\<close>

lemma second_pass_total:
  "\<forall>kv\<in>set d. snd kv \<noteq> [] \<Longrightarrow>
     second_pass acc d =
       Inr (foldl (\<lambda>a kv. collect_result a (entry_result (hd (sort_entries (snd kv))))) acc d)"
proof (induction d arbitrary: acc)
  case Nil
  show ?case by simp
next
  case (Cons kv d)
  obtain k vs where kv: "kv = (k, vs)" by (cases kv)
  from Cons.prems have ne: "vs \<noteq> []" by (simp add: kv)
  from Cons have ih: "\<And>acc. second_pass acc d =
       Inr (foldl (\<lambda>a kv. collect_result a (entry_result (hd (sort_entries (snd kv))))) acc d)"
    by simp
  show ?case by (simp add: kv pick_winner_nonempty[OF ne] ih)
qed

lemma collected_brand_totals:
  "all_brand_totals (foldl (\<lambda>a kv. collect_result a (entry_result (hd (sort_entries (snd kv))))) acc d)
     = all_brand_totals acc @
       map (\<lambda>kv. res_brand_total (entry_result (hd (sort_entries (snd kv))))) d"
  by (induction d arbitrary: acc) (simp_all add: collect_result_def)

subsection \<open>Failures of single files\<close>

lemma single_file_problem_not_ok:
  "single_file_problem f \<Longrightarrow> \<not> parse_ok f"
  by (auto simp: single_file_problem_def parse_ok_def parse_flash_report_def parse_sheet_def
      parse_date_from_cell_def split: file_read.splits option.splits sum.splits)

lemma glob_flash_filter:
  "glob_flash (filter P listing) = filter P (glob_flash listing)"
  by (simp add: glob_flash_def conj_commute)

lemma second_pass_first_pass:
  "second_pass acc (first_pass fs) =
     Inr (foldl (\<lambda>a kv. collect_result a (entry_result (hd (sort_entries (snd kv))))) acc
            (first_pass fs))"
  by (intro second_pass_total ballI grouped_member(2)[OF first_pass_grouped])

text \<open>
  C8. \<open>load_all_reports\<close> always returns its tables (no exception leaves it), and the
  files that do not parse count for nothing: the result is that of the listing without
  them. An unreadable file, a workbook without the sheet and a header without a date
  token are among the files that do not parse.
\<close>

theorem per_file_failure_isolation:
  "(\<exists>t. load_all_reports listing = Inr t) \<and>
   load_all_reports (filter parse_ok listing) = load_all_reports listing \<and>
   (\<forall>f. single_file_problem f \<longrightarrow> \<not> parse_ok f)"
proof (intro conjI allI impI)
  show "\<exists>t. load_all_reports listing = Inr t"
    by (simp add: load_all_reports_def second_pass_first_pass)
  show "load_all_reports (filter parse_ok listing) = load_all_reports listing"
    by (simp add: load_all_reports_def glob_flash_filter first_pass_filter_ok)
  show "\<not> parse_ok f" if "single_file_problem f" for f
    using that by (rule single_file_problem_not_ok)
qed

lemma good_file_ok: "parse_ok good_file"
  by (simp add: parse_ok_def good_file_def parse_flash_report_def brand_row_sheet_parse)

theorem per_file_failure_isolation_witness:
  "single_file_problem unreadable_file \<and> single_file_problem wrong_sheet_file \<and>
   single_file_problem no_date_file \<and>
   load_all_reports [unreadable_file, good_file, wrong_sheet_file, no_date_file] =
     load_all_reports [good_file]"
proof -
  have 1: "single_file_problem unreadable_file"
    by (simp add: single_file_problem_def unreadable_file_def)
  have 2: "single_file_problem wrong_sheet_file"
    by (simp add: single_file_problem_def wrong_sheet_file_def)
  have 3: "single_file_problem no_date_file"
    by (simp add: single_file_problem_def no_date_file_def no_date_sheet_def py_str_def
        text_search_date_def match_date_here_def try_match_def is_digit_def)
  note th = per_file_failure_isolation[of "[unreadable_file, good_file, wrong_sheet_file, no_date_file]"]
  from th 1 have n1: "\<not> parse_ok unreadable_file" by blast
  from th 2 have n2: "\<not> parse_ok wrong_sheet_file" by blast
  from th 3 have n3: "\<not> parse_ok no_date_file" by blast
  from th have "load_all_reports (filter parse_ok [unreadable_file, good_file, wrong_sheet_file, no_date_file])
      = load_all_reports [unreadable_file, good_file, wrong_sheet_file, no_date_file]" by blast
  then show ?thesis using 1 2 3 n1 n2 n3 good_file_ok by simp
qed

subsection \<open>No usable file\<close>

lemma make_tables_empty:
  "make_tables empty_collected =
     \<lparr>sales = \<lparr>df_columns = [], df_rows = []\<rparr>, brand_totals = \<lparr>df_columns = [], df_rows = []\<rparr>,
      transactions = \<lparr>df_columns = [], df_rows = []\<rparr>, channels = \<lparr>df_columns = [], df_rows = []\<rparr>,
      labor = \<lparr>df_columns = [], df_rows = []\<rparr>\<rparr>"
  by (simp add: make_tables_def empty_collected_def frame_of_def DataFrame_empty_def
      sort_by_date_def df_empty_def)

lemma load_all_reports_nothing:
  assumes "\<forall>f\<in>set (glob_flash listing). \<not> parse_ok f"
  shows "load_all_reports listing = Inr (make_tables empty_collected)"
  by (simp add: load_all_reports_def first_pass_none_ok[OF assms])

text \<open>
  C3, as stated, fails: with nothing to load each table is \<^verbatim>\<open>pd.DataFrame()\<close>, which has no
  columns at all, whereas a sales table that has rows has the 22 columns of
  \<open>sales_columns\<close>.
\<close>

theorem empty_tables_have_no_schema_counterexample:
  "load_all_reports [] =
     Inr \<lparr>sales = \<lparr>df_columns = [], df_rows = []\<rparr>, brand_totals = \<lparr>df_columns = [], df_rows = []\<rparr>,
          transactions = \<lparr>df_columns = [], df_rows = []\<rparr>, channels = \<lparr>df_columns = [], df_rows = []\<rparr>,
          labor = \<lparr>df_columns = [], df_rows = []\<rparr>\<rparr> \<and>
   sales_columns \<noteq> []"
proof -
  have "load_all_reports [] = Inr (make_tables empty_collected)"
    by (rule load_all_reports_nothing) (simp add: glob_flash_def)
  then show ?thesis by (simp add: make_tables_empty sales_columns_def)
qed

text \<open>
  C3, amended: when no file of the folder matches the pattern, or no matching file parses,
  \<open>load_all_reports\<close> raises nothing and returns five tables that have no rows and no
  columns.
\<close>

theorem no_usable_files_gives_empty_tables:
  assumes "(\<forall>f\<in>set listing. \<not> fnmatch_flash (basename f)) \<or>
           (\<forall>f\<in>set (glob_flash listing). \<not> parse_ok f)"
  shows "load_all_reports listing =
     Inr \<lparr>sales = \<lparr>df_columns = [], df_rows = []\<rparr>, brand_totals = \<lparr>df_columns = [], df_rows = []\<rparr>,
          transactions = \<lparr>df_columns = [], df_rows = []\<rparr>, channels = \<lparr>df_columns = [], df_rows = []\<rparr>,
          labor = \<lparr>df_columns = [], df_rows = []\<rparr>\<rparr>"
proof -
  from assms have "\<forall>f\<in>set (glob_flash listing). \<not> parse_ok f"
    by (auto simp: glob_flash_def)
  from load_all_reports_nothing[OF this] show ?thesis by (simp add: make_tables_empty)
qed

theorem no_usable_files_gives_empty_tables_witness:
  "\<not> fnmatch_flash (basename other_name_file) \<and> fnmatch_flash (basename unreadable_file) \<and>
   \<not> parse_ok unreadable_file \<and>
   load_all_reports [other_name_file, unreadable_file] =
     Inr \<lparr>sales = \<lparr>df_columns = [], df_rows = []\<rparr>, brand_totals = \<lparr>df_columns = [], df_rows = []\<rparr>,
          transactions = \<lparr>df_columns = [], df_rows = []\<rparr>, channels = \<lparr>df_columns = [], df_rows = []\<rparr>,
          labor = \<lparr>df_columns = [], df_rows = []\<rparr>\<rparr>"
proof -
  have 1: "\<not> fnmatch_flash (basename other_name_file)"
    by (simp add: fnmatch_flash_def other_name_file_def)
  have 2: "fnmatch_flash (basename unreadable_file)"
    by (simp add: fnmatch_flash_def unreadable_file_def suffix_def)
  have 3: "\<not> parse_ok unreadable_file"
    by (simp add: parse_ok_def unreadable_file_def parse_flash_report_def)
  have "\<forall>f\<in>set (glob_flash [other_name_file, unreadable_file]). \<not> parse_ok f"
    using 1 2 3 by (simp add: glob_flash_def)
  then have "(\<forall>f\<in>set [other_name_file, unreadable_file]. \<not> fnmatch_flash (basename f)) \<or>
           (\<forall>f\<in>set (glob_flash [other_name_file, unreadable_file]). \<not> parse_ok f)" by (rule disjI2)
  from no_usable_files_gives_empty_tables[OF this] 1 2 3 show ?thesis by simp
qed

subsection \<open>The brand totals\<close>

lemma read_fields_keys:
  "read_fields ws row flds = Inr fs \<Longrightarrow> map fst fs = map fst flds"
proof (induction flds arbitrary: fs)
  case Nil
  then show ?case by simp
next
  case (Cons f flds)
  obtain key col k where f: "f = (key, col, k)" by (cases f) auto
  from Cons.prems obtain v where v: "coerce k (ws row col) = Inr v"
    by (cases "coerce k (ws row col)") (simp_all add: f)
  from Cons.prems v obtain rest where rest: "read_fields ws row flds = Inr rest"
    by (cases "read_fields ws row flds") (simp_all add: f)
  from Cons.prems have "fs = (key, v) # rest" by (simp add: f v rest)
  with Cons.IH[OF rest] show ?case by (simp add: f)
qed

lemma brand_total_of_parse:
  assumes "parse_sheet ws = Inr (Some p)"
  shows "\<exists>fs. read_fields ws 16 sales_fields = Inr fs \<and>
              res_brand_total p = (''date'', VDate (res_date p)) # fs"
proof -
  from parse_sheet_SomeD(3)[OF assms]
  have b: "bind_err (read_fields ws 16 sales_fields)
             (\<lambda>fs. Inr ((''date'', VDate (res_date p)) # fs)) = Inr (res_brand_total p)"
    by (simp add: brand_total_row_def)
  then obtain fs where fs: "read_fields ws 16 sales_fields = Inr fs"
    by (cases "read_fields ws 16 sales_fields") simp_all
  with b have "res_brand_total p = (''date'', VDate (res_date p)) # fs" by simp
  with fs show ?thesis by blast
qed

lemma parse_flash_report_SomeD:
  assumes "parse_flash_report src = Inr (Some p)"
  shows "\<exists>wb ws. src = Workbook wb \<and> map_of wb ''Multibrand_DailyFlashReport'' = Some ws \<and>
                 parse_sheet ws = Inr (Some p)"
proof (cases src)
  case Unreadable
  with assms show ?thesis by (simp add: parse_flash_report_def)
next
  case (Workbook wb)
  with assms obtain ws where "map_of wb ''Multibrand_DailyFlashReport'' = Some ws"
    by (cases "map_of wb ''Multibrand_DailyFlashReport''") (simp_all add: parse_flash_report_def)
  with assms Workbook show ?thesis by (simp add: parse_flash_report_def)
qed

lemma file_entry_SomeD:
  "file_entry f = Some e \<Longrightarrow> parse_flash_report (content f) = Inr (Some (entry_result e))"
  by (auto simp: file_entry_def entry_result_def split: sum.splits option.splits)

lemma parsed_entries_member:
  "e \<in> set (parsed_entries fs) \<Longrightarrow> \<exists>f\<in>set fs. file_entry f = Some e"
  by (auto simp: parsed_entries_def List.map_filter_def)

lemma parsed_entry_brand_total:
  assumes "e \<in> set (parsed_entries fs)"
  shows "\<exists>rest. res_brand_total (entry_result e) = (''date'', VDate (entry_date e)) # rest"
proof -
  from parsed_entries_member[OF assms] obtain f where "file_entry f = Some e" by blast
  from parse_flash_report_SomeD[OF file_entry_SomeD[OF this]] obtain ws where
    "parse_sheet ws = Inr (Some (entry_result e))" by blast
  from brand_total_of_parse[OF this] show ?thesis by (auto simp: entry_date_def)
qed

lemma sort_entries_hd_member:
  "vs \<noteq> [] \<Longrightarrow> hd (sort_entries vs) \<in> set vs"
  unfolding sort_entries_def by (rule py_sort_reverse_facts(2))

lemma winner_in_group:
  assumes "kv \<in> set (first_pass fs)"
  shows "hd (sort_entries (snd kv)) \<in> set (parsed_entries fs)"
    and "entry_date (hd (sort_entries (snd kv))) = fst kv"
proof -
  note g = grouped_member[OF first_pass_grouped assms]
  from sort_entries_hd_member[OF g(2)]
  have "hd (sort_entries (snd kv)) \<in> set (filter (\<lambda>e. entry_date e = fst kv) (parsed_entries fs))"
    by (simp only: g(1)[symmetric])
  then show "hd (sort_entries (snd kv)) \<in> set (parsed_entries fs)"
    and "entry_date (hd (sort_entries (snd kv))) = fst kv" by simp_all
qed

text \<open>The brand totals collected by the second loop, one for each key of the dict.\<close>

lemma winners_brand_totals:
  assumes "load_all_reports listing = Inr t"
  shows "\<exists>bts. brand_totals t = sort_by_date (frame_of bts) \<and>
               map date_key bts = map fst (first_pass (glob_flash listing)) \<and>
               (\<forall>r\<in>set bts. \<exists>d rest. r = (''date'', VDate d) # rest)"
proof -
  let ?d = "first_pass (glob_flash listing)"
  let ?w = "\<lambda>kv. res_brand_total (entry_result (hd (sort_entries (snd kv))))"
  let ?acc = "foldl (\<lambda>a kv. collect_result a (entry_result (hd (sort_entries (snd kv)))))
                empty_collected ?d"
  from assms have t: "t = make_tables ?acc"
    by (simp add: load_all_reports_def second_pass_first_pass)
  have bts: "all_brand_totals ?acc = map ?w ?d"
    by (simp add: collected_brand_totals empty_collected_def)
  have shape: "\<exists>rest. ?w kv = (''date'', VDate (fst kv)) # rest" if "kv \<in> set ?d" for kv
    using parsed_entry_brand_total[OF winner_in_group(1)[OF that]] winner_in_group(2)[OF that]
    by simp
  have "date_key (?w kv) = fst kv" if "kv \<in> set ?d" for kv
    using shape[OF that] by (auto simp: date_key_def)
  then have 1: "map date_key (map ?w ?d) = map fst ?d" by simp
  have 2: "\<forall>r\<in>set (map ?w ?d). \<exists>d rest. r = (''date'', VDate d) # rest"
  proof
    fix r assume "r \<in> set (map ?w ?d)"
    then have "r \<in> ?w ` set ?d" by (simp only: set_map)
    then obtain kv where kv: "r = ?w kv" "kv \<in> set ?d" by (rule imageE)
    from shape[OF kv(2)] kv(1) show "\<exists>d rest. r = (''date'', VDate d) # rest" by blast
  qed
  have "brand_totals t = sort_by_date (frame_of (map ?w ?d))"
    by (simp add: t make_tables_def bts)
  with 1 2 show ?thesis by blast
qed

lemma distinct_map_insort_key:
  "distinct (map f (insort_key f x xs)) \<longleftrightarrow> f x \<notin> f ` set xs \<and> distinct (map f xs)"
  by (induction xs) (auto simp: set_insort_key)

lemma distinct_map_sort_key:
  "distinct (map f (sort_key f xs)) \<longleftrightarrow> distinct (map f xs)"
  by (induction xs) (simp_all add: distinct_map_insort_key)

lemma frame_rows_by_date:
  assumes "\<forall>r\<in>set recs. \<exists>d rest. r = (''date'', VDate d) # rest"
  shows "df_rows (sort_by_date (frame_of recs)) = sort_key date_key recs"
proof (cases recs)
  case Nil
  then show ?thesis by (simp add: frame_of_def DataFrame_empty_def sort_by_date_def df_empty_def)
next
  case (Cons r rs)
  with assms obtain d rest where r: "r = (''date'', VDate d) # rest" by auto
  have c: "''date'' \<in> set (df_columns (DataFrame recs))"
    by (simp add: DataFrame_def Cons r)
  then have "df_columns (DataFrame recs) \<noteq> []"
    by (cases "df_columns (DataFrame recs)") simp_all
  moreover have "df_rows (DataFrame recs) \<noteq> []" by (simp add: DataFrame_def Cons)
  ultimately have "\<not> df_empty (DataFrame recs)" by (simp add: df_empty_def)
  with c have "sort_by_date (DataFrame recs) =
      (DataFrame recs)\<lparr>df_rows := sort_key date_key (df_rows (DataFrame recs))\<rparr>"
    by (simp add: sort_by_date_def)
  moreover have "frame_of recs = DataFrame recs" by (simp add: frame_of_def Cons)
  ultimately have "df_rows (sort_by_date (frame_of recs)) = sort_key date_key (df_rows (DataFrame recs))"
    by simp
  then show ?thesis by (simp add: DataFrame_def)
qed

text \<open>
  C10. A file that parses has one brand-total record: the date and the coerced cells of
  row 16, which are all 0.0 when those cells are empty. The \<^verbatim>\<open>brand_totals\<close> table has
  exactly one row for each date of a parsed file: its dates are in ascending order,
  without repetition, and are the dates of the parsed files.
\<close>

theorem one_brand_total_per_date:
  "(\<forall>src p. parse_flash_report src = Inr (Some p) \<longrightarrow>
      (\<exists>wb ws fs. src = Workbook wb \<and> map_of wb ''Multibrand_DailyFlashReport'' = Some ws \<and>
         read_fields ws 16 sales_fields = Inr fs \<and>
         res_brand_total p = (''date'', VDate (res_date p)) # fs \<and>
         ((\<forall>f\<in>set sales_fields. is_blank (ws 16 (fst (snd f)))) \<longrightarrow>
            fs = zero_fields sales_fields))) \<and>
   (\<forall>t. load_all_reports listing = Inr t \<longrightarrow>
      sorted (map date_key (df_rows (brand_totals t))) \<and>
      distinct (map date_key (df_rows (brand_totals t))) \<and>
      set (map date_key (df_rows (brand_totals t))) =
        entry_date ` set (parsed_entries (glob_flash listing)))"
proof (intro conjI allI impI)
  fix src p assume "parse_flash_report src = Inr (Some p)"
  from parse_flash_report_SomeD[OF this] obtain wb ws where
    wb: "src = Workbook wb" "map_of wb ''Multibrand_DailyFlashReport'' = Some ws"
    and p: "parse_sheet ws = Inr (Some p)" by blast
  from brand_total_of_parse[OF p] obtain fs where
    fs: "read_fields ws 16 sales_fields = Inr fs"
    "res_brand_total p = (''date'', VDate (res_date p)) # fs" by blast
  have "fs = zero_fields sales_fields" if "\<forall>f\<in>set sales_fields. is_blank (ws 16 (fst (snd f)))"
    using read_fields_blank[of sales_fields ws 16, OF that] fs(1) by simp
  with wb fs show "\<exists>wb ws fs. src = Workbook wb \<and>
         map_of wb ''Multibrand_DailyFlashReport'' = Some ws \<and>
         read_fields ws 16 sales_fields = Inr fs \<and>
         res_brand_total p = (''date'', VDate (res_date p)) # fs \<and>
         ((\<forall>f\<in>set sales_fields. is_blank (ws 16 (fst (snd f)))) \<longrightarrow>
            fs = zero_fields sales_fields)" by blast
next
  fix t assume t: "load_all_reports listing = Inr t"
  from winners_brand_totals[OF t] obtain bts where
    bt: "brand_totals t = sort_by_date (frame_of bts)"
    and keys: "map date_key bts = map fst (first_pass (glob_flash listing))"
    and shape: "\<forall>r\<in>set bts. \<exists>d rest. r = (''date'', VDate d) # rest" by blast
  have rows: "df_rows (brand_totals t) = sort_key date_key bts"
    by (simp add: bt frame_rows_by_date[OF shape])
  note g = grouped_keys[OF first_pass_grouped, of "glob_flash listing"]
  show "sorted (map date_key (df_rows (brand_totals t)))" by (simp add: rows)
  show "distinct (map date_key (df_rows (brand_totals t)))"
    using g(1) by (simp add: rows distinct_map_sort_key keys)
  have "set (map date_key (sort_key date_key bts)) = set (map date_key bts)" by simp
  then show "set (map date_key (df_rows (brand_totals t))) =
        entry_date ` set (parsed_entries (glob_flash listing))"
    using g(2) by (simp only: rows keys)
qed

lemma good_file_parse: "parse_flash_report (content good_file) = Inr (Some good_result)"
  by (simp add: good_file_def parse_flash_report_def brand_row_sheet_parse good_result_def)

lemma good_file_glob: "glob_flash [good_file] = [good_file]"
  by (simp add: glob_flash_def fnmatch_flash_def good_file_def suffix_def)

lemma good_file_entry:
  "file_entry good_file = Some (''Multibrand_FlashReport[4].xlsx'', 40, False, good_result)"
proof -
  have "re_search_suffix ''Multibrand_FlashReport[4].xlsx'' = Some ''[4]''"
    by (simp add: match_suffix_here_def is_digit_def)
  then have "\<not> is_preferred ''Multibrand_FlashReport[4].xlsx''"
    by (simp add: is_preferred_def PREFERRED_SUFFIXES_def)
  then show ?thesis by (simp add: file_entry_def good_file_parse) (simp add: good_file_def)
qed

lemma good_file_first_pass:
  "first_pass [good_file] =
     [((2026, 2, 22), [(''Multibrand_FlashReport[4].xlsx'', 40, False, good_result)])]"
  by (simp add: first_pass_def first_pass_step_entry good_file_entry entry_date_def
      entry_result_def good_result_def)

lemma good_file_tables: "load_all_reports [good_file] = Inr good_tables"
proof -
  let ?e = "(''Multibrand_FlashReport[4].xlsx'', 40 :: rat, False, good_result)"
  have w: "pick_winner [?e] = Inr ?e"
    by (simp add: pick_winner_def sort_entries_def py_sort_reverse_def)
  have acc: "second_pass empty_collected (first_pass [good_file]) =
      Inr \<lparr>all_sales = [], all_brand_totals = [res_brand_total good_result],
           all_transactions = [], all_channels = [], all_labor = []\<rparr>"
    by (simp add: good_file_first_pass w collect_result_def empty_collected_def entry_result_def)
       (simp add: good_result_def)
  have cols: "df_columns (DataFrame [res_brand_total good_result]) = ''date'' # map fst sales_fields"
    by (simp add: DataFrame_def good_result_def zero_fields_def sales_fields_def)
  have bt: "sort_by_date (frame_of [res_brand_total good_result]) =
      \<lparr>df_columns = ''date'' # map fst sales_fields, df_rows = [res_brand_total good_result]\<rparr>"
  proof -
    have "frame_of [res_brand_total good_result] =
       \<lparr>df_columns = ''date'' # map fst sales_fields, df_rows = [res_brand_total good_result]\<rparr>"
      using cols by (simp add: frame_of_def DataFrame_def)
    then show ?thesis by (simp add: sort_by_date_def df_empty_def)
  qed
  have e: "sort_by_date (frame_of []) = \<lparr>df_columns = [], df_rows = []\<rparr>"
    by (simp add: frame_of_def DataFrame_empty_def sort_by_date_def df_empty_def)
  show ?thesis
    unfolding load_all_reports_def good_file_glob acc
    by (simp add: make_tables_def bt e good_tables_def) (simp add: good_result_def)
qed

theorem one_brand_total_per_date_witness:
  "parse_flash_report (content good_file) = Inr (Some good_result) \<and>
   res_brand_total good_result = (''date'', VDate (2026, 2, 22)) # zero_fields sales_fields \<and>
   load_all_reports [good_file] = Inr good_tables \<and>
   sorted (map date_key (df_rows (brand_totals good_tables))) \<and>
   distinct (map date_key (df_rows (brand_totals good_tables))) \<and>
   set (map date_key (df_rows (brand_totals good_tables))) = {(2026, 2, 22)}"
proof -
  note th = one_brand_total_per_date[of "[good_file]"]
  from th good_file_parse obtain wb ws fs where
    wb: "content good_file = Workbook wb" "map_of wb ''Multibrand_DailyFlashReport'' = Some ws"
    and fs: "res_brand_total good_result = (''date'', VDate (res_date good_result)) # fs"
    and z: "(\<forall>f\<in>set sales_fields. is_blank (ws 16 (fst (snd f)))) \<longrightarrow> fs = zero_fields sales_fields"
    by blast
  from wb have ws: "ws = brand_row_sheet" by (auto simp: good_file_def)
  have "\<forall>f\<in>set sales_fields. is_blank (ws 16 (fst (snd f)))"
    by (simp add: ws sales_fields_def brand_row_sheet_def is_blank_def)
  with z have "fs = zero_fields sales_fields" by blast
  with fs have a: "res_brand_total good_result = (''date'', VDate (2026, 2, 22)) # zero_fields sales_fields"
    by (simp add: good_result_def)
  from th have "\<forall>t. load_all_reports [good_file] = Inr t \<longrightarrow>
      sorted (map date_key (df_rows (brand_totals t))) \<and>
      distinct (map date_key (df_rows (brand_totals t))) \<and>
      set (map date_key (df_rows (brand_totals t))) =
        entry_date ` set (parsed_entries (glob_flash [good_file]))" by (rule conjunct2)
  with good_file_tables have b: "sorted (map date_key (df_rows (brand_totals good_tables))) \<and>
      distinct (map date_key (df_rows (brand_totals good_tables))) \<and>
      set (map date_key (df_rows (brand_totals good_tables))) =
        entry_date ` set (parsed_entries (glob_flash [good_file]))" by blast
  have "parsed_entries [good_file] = [(''Multibrand_FlashReport[4].xlsx'', 40, False, good_result)]"
    unfolding parsed_entries_def List.map_filter_def by (simp add: good_file_entry del: not_None_eq)
  then have "entry_date ` set (parsed_entries (glob_flash [good_file])) = {(2026, 2, 22)}"
    unfolding good_file_glob by (simp add: entry_date_def entry_result_def good_result_def)
  with b good_file_parse good_file_tables a show ?thesis by simp
qed

section \<open>Properties of the date extraction\<close>

lemma slash_not_digit [simp]: "\<not> is_digit (CHR ''/'')"
  by (simp add: is_digit_def)

lemma try_match_token:
  assumes "list_all is_digit m" "length m = k" "list_all is_digit d" "length d = j"
    "list_all is_digit y" "length y = 4"
  shows "try_match k j (date_token m d y @ rest) = Some (date_token m d y)"
  using assms by (simp add: try_match_def date_token_def)

lemma try_match_not_digit:
  "k' \<noteq> 0 \<Longrightarrow> \<not> list_all is_digit (take k' s) \<Longrightarrow> try_match k' j s = None"
  by (simp add: try_match_def)

lemma try_match_SomeD:
  assumes "try_match k j s = Some t"
  shows "\<exists>m d y rest. list_all is_digit m \<and> length m = k \<and> list_all is_digit d \<and> length d = j \<and>
           list_all is_digit y \<and> length y = 4 \<and> s = date_token m d y @ rest \<and> t = date_token m d y"
proof -
  define ms where "ms = take k s"
  define r1 where "r1 = drop k s"
  define x1 where "x1 = drop 1 r1"
  define ds where "ds = take j x1"
  define r2 where "r2 = drop j x1"
  define x2 where "x2 = drop 1 r2"
  define ys where "ys = take 4 x2"
  define rest where "rest = drop 4 x2"
  from assms have c: "length ms = k" "list_all is_digit ms" "take 1 r1 = ''/''"
    "length ds = j" "list_all is_digit ds" "take 1 r2 = ''/''"
    "length ys = 4" "list_all is_digit ys" and t: "t = ms @ ''/'' @ ds @ ''/'' @ ys"
    unfolding ms_def r1_def x1_def ds_def r2_def x2_def ys_def
    by (auto simp: try_match_def Let_def split: if_splits)
  have e1: "s = ms @ r1" unfolding ms_def r1_def by (rule append_take_drop_id[symmetric])
  have "r1 = take 1 r1 @ x1" unfolding x1_def by (rule append_take_drop_id[symmetric])
  then have e2: "r1 = ''/'' @ x1" using c(3) by simp
  have e3: "x1 = ds @ r2" unfolding ds_def r2_def by (rule append_take_drop_id[symmetric])
  have "r2 = take 1 r2 @ x2" unfolding x2_def by (rule append_take_drop_id[symmetric])
  then have e4: "r2 = ''/'' @ x2" using c(6) by simp
  have e5: "x2 = ys @ rest" unfolding ys_def rest_def by (rule append_take_drop_id[symmetric])
  have "s = date_token ms ds ys @ rest"
    unfolding date_token_def by (simp add: e1 e2 e3 e4 e5)
  moreover have "t = date_token ms ds ys" by (simp add: t date_token_def)
  ultimately show ?thesis using c by blast
qed

lemma match_date_here_token:
  assumes "token_parts m d y"
  shows "match_date_here (date_token m d y @ rest) = Some (date_token m d y)"
proof -
  from assms have dg: "list_all is_digit m" "list_all is_digit d" "list_all is_digit y" "length y = 4"
    and lm: "length m = 1 \<or> length m = 2" and ld: "length d = 1 \<or> length d = 2"
    by (simp_all add: token_parts_def)
  let ?s = "date_token m d y @ rest"
  have hit: "try_match (length m) (length d) ?s = Some (date_token m d y)"
    using dg by (intro try_match_token) simp_all
  have m1: "try_match 2 j ?s = None" if "length m = 1" for j
  proof -
    from that obtain a where "m = [a]" by (cases m) auto
    then show ?thesis by (simp add: try_match_def date_token_def)
  qed
  have d1: "try_match (length m) 2 ?s = None" if "length d = 1"
  proof -
    from that obtain a where "d = [a]" by (cases d) auto
    then show ?thesis using dg(1) by (simp add: try_match_def date_token_def)
  qed
  from lm ld show ?thesis
  proof (elim disjE)
    assume "length m = 1" "length d = 1"
    then show ?thesis using hit m1 d1 by (simp add: match_date_here_def)
  next
    assume "length m = 1" "length d = 2"
    then show ?thesis using hit m1 by (simp add: match_date_here_def)
  next
    assume "length m = 2" "length d = 1"
    then show ?thesis using hit d1 by (simp add: match_date_here_def)
  next
    assume "length m = 2" "length d = 2"
    then show ?thesis using hit by (simp add: match_date_here_def)
  qed
qed

lemma match_date_here_SomeD:
  assumes "match_date_here s = Some t"
  shows "\<exists>m d y rest. token_parts m d y \<and> s = date_token m d y @ rest \<and> t = date_token m d y"
proof -
  from assms obtain k j where kj: "k = 1 \<or> k = 2" "j = 1 \<or> j = 2" and tm: "try_match k j s = Some t"
    unfolding match_date_here_def by (auto split: option.splits)
  from try_match_SomeD[OF tm] kj show ?thesis unfolding token_parts_def by blast
qed

lemma token_at_0: "token_at s 0 \<longleftrightarrow> (\<exists>m d y rest. token_parts m d y \<and> s = date_token m d y @ rest)"
  by (simp add: token_at_def)

lemma token_at_Suc: "token_at (c # s) (Suc n) \<longleftrightarrow> token_at s n"
  by (simp add: token_at_def)

lemma match_date_here_None_iff: "match_date_here s = None \<longleftrightarrow> \<not> token_at s 0"
proof
  assume n: "match_date_here s = None"
  show "\<not> token_at s 0"
  proof
    assume "token_at s 0"
    then obtain m d y rest where "token_parts m d y" "s = date_token m d y @ rest"
      unfolding token_at_0 by blast
    with match_date_here_token[of m d y rest] n show False by simp
  qed
next
  assume n: "\<not> token_at s 0"
  show "match_date_here s = None"
  proof (cases "match_date_here s")
    case None
    then show ?thesis .
  next
    case (Some t)
    from match_date_here_SomeD[OF Some] have "token_at s 0" unfolding token_at_0 by blast
    with n show ?thesis by simp
  qed
qed

lemma re_search_date_none:
  "(\<forall>n. \<not> token_at s n) \<Longrightarrow> re_search_date s = None"
proof (induction s)
  case Nil
  show ?case by simp
next
  case (Cons c s)
  from Cons.prems have "\<not> token_at (c # s) 0" by blast
  then have h: "match_date_here (c # s) = None" by (simp add: match_date_here_None_iff)
  have "\<forall>n. \<not> token_at s n"
  proof
    fix n from Cons.prems have "\<not> token_at (c # s) (Suc n)" by blast
    then show "\<not> token_at s n" by (simp add: token_at_Suc)
  qed
  from Cons.IH[OF this] h show ?case by simp
qed

lemma re_search_date_leftmost:
  assumes "token_parts m d y"
  shows "(\<forall>n<length pre. \<not> token_at (pre @ date_token m d y @ post) n) \<Longrightarrow>
         re_search_date (pre @ date_token m d y @ post) = Some (date_token m d y)"
proof (induction pre)
  case Nil
  from assms have "date_token m d y \<noteq> []" by (auto simp: date_token_def)
  then obtain c cs where s: "date_token m d y @ post = c # cs"
    by (cases "date_token m d y @ post") auto
  from match_date_here_token[OF assms, of post]
  show ?case by (simp add: s[symmetric] del: re_search_date.simps) (simp add: s)
next
  case (Cons c pre)
  from Cons.prems have "\<not> token_at (c # pre @ date_token m d y @ post) 0" by auto
  then have h: "match_date_here (c # pre @ date_token m d y @ post) = None"
    by (simp add: match_date_here_None_iff)
  have "\<forall>n<length pre. \<not> token_at (pre @ date_token m d y @ post) n"
  proof (intro allI impI)
    fix n assume "n < length pre"
    with Cons.prems have "\<not> token_at ((c # pre) @ date_token m d y @ post) (Suc n)" by auto
    then show "\<not> token_at (pre @ date_token m d y @ post) n" by (simp add: token_at_Suc)
  qed
  from Cons.IH[OF this] h show ?case by simp
qed

lemma strptime_token:
  assumes "token_parts m d y"
  shows "strptime_mdY (date_token m d y) =
           (if is_calendar_date (token_date m d y) then Inr (token_date m d y) else Inl ValueError)"
proof -
  from assms have dg: "\<forall>x\<in>set m. is_digit x" "\<forall>x\<in>set d. is_digit x" "\<forall>x\<in>set y. is_digit x"
    by (simp_all add: token_parts_def list_all_iff)
  have tm: "takeWhile is_digit (m @ CHR ''/'' # r) = m" for r
    using dg(1) by (simp add: takeWhile_append2)
  have dm: "dropWhile is_digit (m @ CHR ''/'' # r) = CHR ''/'' # r" for r
    using dg(1) by (simp add: dropWhile_append2)
  have td: "takeWhile is_digit (d @ CHR ''/'' # r) = d" for r
    using dg(2) by (simp add: takeWhile_append2)
  have dd: "dropWhile is_digit (d @ CHR ''/'' # r) = CHR ''/'' # r" for r
    using dg(2) by (simp add: dropWhile_append2)
  have le: "days_in_month a b \<le> 31" for a b by (simp add: days_in_month_def)
  have "nat_of_digits d \<le> days_in_month (nat_of_digits y) (nat_of_digits m) \<Longrightarrow> nat_of_digits d \<le> 31"
    using le[of "nat_of_digits y" "nat_of_digits m"] by simp
  then show ?thesis
    by (auto simp: strptime_mdY_def date_token_def tm dm td dd Let_def is_calendar_date_def
        token_date_def)
qed

lemma parse_date_no_token:
  assumes "\<forall>s. py_str v = Str s \<longrightarrow> (\<forall>n. \<not> token_at s n)"
  shows "parse_date_from_cell v = Inr None"
proof (cases "py_str v")
  case (Str s)
  with assms have "re_search_date s = None" by (intro re_search_date_none) simp
  then show ?thesis by (simp add: parse_date_from_cell_def text_search_date_def Str)
next
  case (FloatRepr f)
  then show ?thesis by (simp add: parse_date_from_cell_def text_search_date_def)
qed

lemma token_at_starts_with_digit:
  assumes "token_at s n"
  shows "n < length s \<and> is_digit (s ! n)"
proof -
  from assms obtain m d y rest where tp: "token_parts m d y"
    and dr: "drop n s = date_token m d y @ rest" unfolding token_at_def by blast
  from tp obtain a m' where m: "m = a # m'" and a: "is_digit a"
    by (cases m) (auto simp: token_parts_def)
  from dr have dr': "drop n s = a # (m' @ ''/'' @ d @ ''/'' @ y @ rest)"
    by (simp add: m date_token_def)
  then have n: "n < length s" by (cases "n < length s") simp_all
  from dr' have "hd (drop n s) = a" by simp
  with n have "s ! n = a" by (simp add: hd_drop_conv_nth)
  with n a show ?thesis by simp
qed

lemma no_token_in_digit_free_prefix:
  assumes "\<forall>c\<in>set pre. \<not> is_digit c"
  shows "\<forall>n<length pre. \<not> token_at (pre @ s) n"
proof (intro allI impI notI)
  fix n assume n: "n < length pre" and "token_at (pre @ s) n"
  from token_at_starts_with_digit[OF this(2)] have "is_digit ((pre @ s) ! n)" by simp
  with n have "is_digit (pre ! n)" by (simp add: nth_append)
  with n assms show False by (meson nth_mem)
qed

lemma token_at_has_slash:
  assumes "token_at s n"
  shows "CHR ''/'' \<in> set s"
proof -
  from assms obtain m d y rest where "drop n s = date_token m d y @ rest"
    unfolding token_at_def by blast
  then have "CHR ''/'' \<in> set (drop n s)" by (simp add: date_token_def)
  then show ?thesis by (rule in_set_dropD)
qed

text \<open>
  C5, as stated, fails: a token of the stated shape need not be a date. The header
  \<^verbatim>\<open>Selected Date:13/1/2026\<close> contains the token \<^verbatim>\<open>13/1/2026\<close>; \<^verbatim>\<open>strptime\<close> raises
  \<^verbatim>\<open>ValueError\<close> on it, and so does \<open>parse_flash_report\<close>: no date is extracted.
\<close>

theorem invalid_token_raises_counterexample:
  "token_parts ''13'' ''1'' ''2026'' \<and>
   day_first_sheet 2 1 = CStr (''Selected Date:'' @ date_token ''13'' ''1'' ''2026'') \<and>
   parse_date_from_cell (day_first_sheet 2 1) = Inl ValueError \<and>
   parse_flash_report (Workbook [(''Multibrand_DailyFlashReport'', day_first_sheet)]) = Inl ValueError"
proof -
  have 1: "token_parts ''13'' ''1'' ''2026''" by (simp add: token_parts_def is_digit_def)
  have 2: "day_first_sheet 2 1 = CStr (''Selected Date:'' @ date_token ''13'' ''1'' ''2026'')"
    by (simp add: day_first_sheet_def date_token_def)
  have 3: "parse_date_from_cell (day_first_sheet 2 1) = Inl ValueError"
    by (simp add: day_first_sheet_def parse_date_from_cell_def truthy_def py_str_def
        text_search_date_def match_date_here_def try_match_def is_digit_def strptime_mdY_def
        digit_val_def days_in_month_def is_leap_def Let_def)
  have "parse_sheet day_first_sheet = Inl ValueError" unfolding parse_sheet_def 3 by simp
  then have 4: "parse_flash_report (Workbook [(''Multibrand_DailyFlashReport'', day_first_sheet)]) =
      Inl ValueError" by (simp add: parse_flash_report_def)
  show ?thesis using 1 2 3 4 by simp
qed

text \<open>
  C5, amended: when the leftmost date token of the header text (no token starts before
  it) is a date of the calendar, that date is the report date; when it is not,
  \<^verbatim>\<open>ValueError\<close> is raised. When the header text has no token at all, the date is \<^verbatim>\<open>None\<close>
  and the parse of the sheet returns \<^verbatim>\<open>None\<close> without raising.
\<close>

theorem date_extraction:
  "(token_parts m d y \<and> (\<forall>n<length pre. \<not> token_at (pre @ date_token m d y @ post) n) \<longrightarrow>
      parse_date_from_cell (CStr (pre @ date_token m d y @ post)) =
        (if is_calendar_date (token_date m d y) then Inr (Some (token_date m d y))
         else Inl ValueError)) \<and>
   ((\<forall>s. py_str (ws 2 1) = Str s \<longrightarrow> (\<forall>n. \<not> token_at s n)) \<longrightarrow>
      parse_date_from_cell (ws 2 1) = Inr None \<and> parse_sheet ws = Inr None)"
proof (intro conjI impI)
  assume a: "token_parts m d y \<and> (\<forall>n<length pre. \<not> token_at (pre @ date_token m d y @ post) n)"
  then have tp: "token_parts m d y" by (rule conjunct1)
  from a have "\<forall>n<length pre. \<not> token_at (pre @ date_token m d y @ post) n" by (rule conjunct2)
  from re_search_date_leftmost[OF tp this]
  have s: "re_search_date (pre @ date_token m d y @ post) = Some (date_token m d y)" .
  from tp have "date_token m d y \<noteq> []" by (auto simp: date_token_def)
  then have tr: "truthy (CStr (pre @ date_token m d y @ post))" by (simp add: truthy_def)
  show "parse_date_from_cell (CStr (pre @ date_token m d y @ post)) =
        (if is_calendar_date (token_date m d y) then Inr (Some (token_date m d y))
         else Inl ValueError)"
    using tr by (simp add: parse_date_from_cell_def py_str_def text_search_date_def s
        strptime_token[OF tp])
next
  assume "\<forall>s. py_str (ws 2 1) = Str s \<longrightarrow> (\<forall>n. \<not> token_at s n)"
  from parse_date_no_token[OF this] show n: "parse_date_from_cell (ws 2 1) = Inr None" .
  show "parse_sheet ws = Inr None" unfolding parse_sheet_def n by simp
qed

theorem date_extraction_witness:
  "token_parts ''2'' ''22'' ''2026'' \<and> is_calendar_date (token_date ''2'' ''22'' ''2026'') \<and>
   parse_date_from_cell (CStr (''Selected Date:'' @ date_token ''2'' ''22'' ''2026'' @ [])) =
     Inr (Some (2026, 2, 22)) \<and>
   py_str (no_date_sheet 2 1) = Str ''Selected Date: none'' \<and>
   parse_sheet no_date_sheet = Inr None"
proof -
  have 1: "token_parts ''2'' ''22'' ''2026''" by (simp add: token_parts_def is_digit_def)
  have td: "token_date ''2'' ''22'' ''2026'' = (2026, 2, 22)"
    by (simp add: token_date_def digit_val_def)
  have 2: "is_calendar_date (token_date ''2'' ''22'' ''2026'')"
    by (simp add: td is_calendar_date_def days_in_month_def is_leap_def)
  have 3: "\<forall>n<length ''Selected Date:''. \<not> token_at (''Selected Date:'' @ date_token ''2'' ''22'' ''2026'' @ []) n"
    by (rule no_token_in_digit_free_prefix) (simp add: is_digit_def)
  have 4: "py_str (no_date_sheet 2 1) = Str ''Selected Date: none''"
    by (simp add: no_date_sheet_def py_str_def)
  have "\<not> token_at ''Selected Date: none'' n" for n
  proof
    assume "token_at ''Selected Date: none'' n"
    from token_at_has_slash[OF this] show False by simp
  qed
  with 4 have 5: "\<forall>s. py_str (no_date_sheet 2 1) = Str s \<longrightarrow> (\<forall>n. \<not> token_at s n)" by simp
  note th = date_extraction[of "''2''" "''22''" "''2026''" "''Selected Date:''" "[]" no_date_sheet]
  from th 1 3 have a: "parse_date_from_cell (CStr (''Selected Date:'' @ date_token ''2'' ''22'' ''2026'' @ [])) =
        (if is_calendar_date (token_date ''2'' ''22'' ''2026'') then Inr (Some (token_date ''2'' ''22'' ''2026''))
         else Inl ValueError)" by blast
  from th 5 have b: "parse_sheet no_date_sheet = Inr None" by blast
  from a 2 td have "parse_date_from_cell (CStr (''Selected Date:'' @ date_token ''2'' ''22'' ''2026'' @ [])) =
     Inr (Some (2026, 2, 22))" by simp
  with 1 2 4 b show ?thesis by simp
qed

section \<open>Properties of the rounding and of numeric texts\<close>

lemma bit_length_le: "n < 2 ^ k \<Longrightarrow> bit_length n \<le> k"
proof (induction k arbitrary: n)
  case 0
  then show ?case by (simp add: bit_length.simps)
next
  case (Suc k)
  show ?case
  proof (cases "n = 0")
    case True
    then show ?thesis by (simp add: bit_length.simps)
  next
    case False
    from Suc.prems have "n div 2 < 2 ^ k" by simp
    from Suc.IH[OF this] False show ?thesis by (subst bit_length.simps) simp
  qed
qed

lemma bit_length_upper: "n < 2 ^ bit_length n"
proof (induction n rule: bit_length.induct)
  case (1 n)
  show ?case
  proof (cases "n = 0")
    case True
    then show ?thesis by simp
  next
    case False
    from 1[OF False] have "n div 2 < 2 ^ bit_length (n div 2)" .
    then have "n < 2 * 2 ^ bit_length (n div 2)" by linarith
    with False show ?thesis by (subst bit_length.simps) simp
  qed
qed

lemma bit_length_lower: "0 < n \<Longrightarrow> 2 ^ (bit_length n - 1) \<le> n"
proof (induction n rule: bit_length.induct)
  case (1 n)
  from "1.prems" have n: "n \<noteq> 0" by simp
  have bl: "bit_length n = Suc (bit_length (n div 2))" using n by (subst bit_length.simps) simp
  show ?case
  proof (cases "n div 2 = 0")
    case True
    then have "bit_length (n div 2) = 0" by (simp add: bit_length.simps)
    with bl "1.prems" show ?thesis by simp
  next
    case False
    then have pos: "0 < n div 2" by simp
    from "1.IH"[OF n pos] have ih: "2 ^ (bit_length (n div 2) - 1) \<le> n div 2" .
    from False have "bit_length (n div 2) = Suc (bit_length (n div 2 div 2))"
      by (subst bit_length.simps) simp
    then have "bit_length (n div 2) = Suc (bit_length (n div 2) - 1)" by simp
    then have "(2::nat) ^ bit_length (n div 2) = 2 * 2 ^ (bit_length (n div 2) - 1)"
      by (metis power_Suc)
    also from ih have "\<dots> \<le> 2 * (n div 2)" by simp
    also have "\<dots> \<le> n" by simp
    finally show ?thesis by (simp add: bl)
  qed
qed

lemma pow2_powi: "pow2 e = 2 powi e"
  by (simp add: pow2_def power_int_def power_one_over)

lemma pow2_pos: "0 < pow2 e"
  by (simp add: pow2_powi)

lemma pow2_mono: "e \<le> e' \<Longrightarrow> pow2 e \<le> pow2 e'"
  by (simp add: pow2_powi power_int_increasing)

lemma pow2_half: "pow2 (e - 52) / 2 = pow2 e / 2 ^ 53"
proof -
  have "pow2 (e - 52) = pow2 e / 2 ^ 52"
    by (simp add: pow2_powi power_int_diff)
  then show ?thesis by simp
qed

lemma pow2_nat: "pow2 (int k) = 2 ^ k"
  by (simp add: pow2_def)

lemma floor_log2_lower:
  assumes "0 < a"
  shows "pow2 (floor_log2 a) \<le> a"
proof (cases "1 \<le> a")
  case True
  define N where "N = nat \<lfloor>a\<rfloor>"
  from True have N: "0 < N" by (simp add: N_def)
  then have "bit_length N \<noteq> 0" by (subst bit_length.simps) simp
  then have "int (bit_length N) - 1 = int (bit_length N - 1)" by simp
  moreover have "floor_log2 a = int (bit_length N) - 1"
    using True by (simp add: floor_log2_def N_def)
  ultimately have "floor_log2 a = int (bit_length N - 1)" by (rule trans[rotated])
  then have "pow2 (floor_log2 a) = 2 ^ (bit_length N - 1)" by (simp only: pow2_nat)
  also have "\<dots> = of_nat (2 ^ (bit_length N - 1))" by simp
  also have "\<dots> \<le> of_nat N" using bit_length_lower[OF N] by (simp only: of_nat_le_iff)
  also have "\<dots> = of_int \<lfloor>a\<rfloor>" using True by (simp add: N_def)
  also have "\<dots> \<le> a" by simp
  finally show ?thesis .
next
  case False
  define M where "M = nat (\<lceil>1 / a\<rceil> - 1)"
  from False assms have "1 < 1 / a" by simp
  then have c: "1 \<le> \<lceil>1 / a\<rceil>" by linarith
  have "1 / a \<le> of_int \<lceil>1 / a\<rceil>" by simp
  also have "\<lceil>1 / a\<rceil> = int M + 1" using c by (simp add: M_def)
  also have "(of_int (int M + 1) :: rat) = of_nat (M + 1)" by simp
  also have "\<dots> \<le> of_nat (2 ^ bit_length M)"
  proof -
    from bit_length_upper[of M] have "M + 1 \<le> 2 ^ bit_length M" by simp
    then show ?thesis by (simp only: of_nat_le_iff)
  qed
  finally have "1 / a \<le> 2 ^ bit_length M" by simp
  with assms have "1 / 2 ^ bit_length M \<le> a"
    by (simp add: field_simps)
  moreover have "floor_log2 a = - int (bit_length M)"
    using False by (simp add: floor_log2_def M_def)
  then have "pow2 (floor_log2 a) = 1 / 2 ^ bit_length M"
    by (simp add: pow2_def)
  ultimately show ?thesis by simp
qed

lemma bit_length_floor:
  fixes a :: rat
  assumes "1 \<le> a" and "a < 2 ^ k"
  shows "int (bit_length (nat \<lfloor>a\<rfloor>)) \<le> int k"
proof -
  from assms(2) have "\<lfloor>a\<rfloor> < 2 ^ k" by (simp add: floor_less_iff)
  moreover from assms(1) have "0 \<le> \<lfloor>a\<rfloor>" by simp
  ultimately have "nat \<lfloor>a\<rfloor> < 2 ^ k" by (simp add: nat_less_iff)
  from bit_length_le[OF this] show ?thesis by simp
qed

lemma floor_log2_upper:
  assumes "0 < a" and "a < 2 ^ 1023"
  shows "floor_log2 a \<le> 1022"
proof (cases "1 \<le> a")
  case True
  from bit_length_floor[OF True assms(2)] True show ?thesis by (simp add: floor_log2_def)
next
  case False
  then show ?thesis by (simp add: floor_log2_def)
qed

lemma round_half_even_close: "\<bar>of_int (round_half_even x) - x\<bar> \<le> 1 / 2"
proof -
  have "of_int \<lfloor>x\<rfloor> \<le> x" "x < of_int \<lfloor>x\<rfloor> + 1" by linarith+
  then show ?thesis by (auto simp: round_half_even_def Let_def)
qed

lemma round64_close:
  assumes "\<bar>q\<bar> < 2 ^ 1023"
  shows "\<exists>v. round64 q = Finite v \<and> \<bar>v - q\<bar> \<le> max (\<bar>q\<bar> / 2 ^ 53) (1 / 2 ^ 1075)"
proof (cases "q = 0")
  case True
  then show ?thesis by (simp add: round64_def)
next
  case False
  define a where "a = \<bar>q\<bar>"
  define e where "e = max (floor_log2 a) (- 1022)"
  define ulp where "ulp = pow2 (e - 52)"
  define r where "r = round_half_even (a / ulp)"
  define w where "w = of_int r * ulp"
  have a: "0 < a" "a < 2 ^ 1023" using False assms by (simp_all add: a_def)
  have ulp: "0 < ulp" by (simp add: ulp_def pow2_pos)
  have "\<bar>of_int r - a / ulp\<bar> \<le> 1 / 2" unfolding r_def by (rule round_half_even_close)
  with ulp have "\<bar>of_int r - a / ulp\<bar> * ulp \<le> 1 / 2 * ulp"
    by (rule_tac mult_right_mono) simp_all
  moreover have "\<bar>of_int r - a / ulp\<bar> * ulp = \<bar>(of_int r - a / ulp) * ulp\<bar>"
    using ulp by (simp add: abs_mult)
  moreover have "(of_int r - a / ulp) * ulp = w - a"
    using ulp by (simp add: w_def left_diff_distrib)
  ultimately have close: "\<bar>w - a\<bar> \<le> ulp / 2" by simp
  have half: "ulp / 2 = pow2 e / 2 ^ 53" unfolding ulp_def by (rule pow2_half)
  have e_le: "e \<le> 1022" using floor_log2_upper[OF a] by (simp add: e_def)
  have bound: "ulp / 2 \<le> max (a / 2 ^ 53) (1 / 2 ^ 1075)"
  proof (cases "- 1022 \<le> floor_log2 a")
    case True
    then have "e = floor_log2 a" by (simp add: e_def)
    with floor_log2_lower[OF a(1)] have "pow2 e \<le> a" by simp
    then have "pow2 e / 2 ^ 53 \<le> a / 2 ^ 53" by (rule divide_right_mono) simp
    with half show ?thesis by simp
  next
    case False
    then have "e = - 1022" by (simp add: e_def)
    then have "pow2 e = 1 / 2 ^ 1022" by (simp add: pow2_def)
    with half have "ulp / 2 = 1 / 2 ^ 1075" by simp
    then show ?thesis by simp
  qed
  have "pow2 e \<le> pow2 1022" using e_le by (rule pow2_mono)
  also have "pow2 1022 = 2 ^ 1022" by (simp add: pow2_def)
  finally have "pow2 e / 2 ^ 53 \<le> 2 ^ 1022 / 2 ^ 53" by (rule divide_right_mono) simp
  with half have "ulp / 2 < 2 ^ 1023" by simp
  with close a(2) have "w < 2 ^ 1023 + 2 ^ 1023" by linarith
  then have "w < 2 ^ 1024" by simp
  then have "\<not> pow2 1024 \<le> w" by (simp add: pow2_def)
  then have "\<not> pow2 1024 \<le>
      of_int (round_half_even (\<bar>q\<bar> / pow2 (max (floor_log2 \<bar>q\<bar>) (- 1022) - 52))) *
      pow2 (max (floor_log2 \<bar>q\<bar>) (- 1022) - 52)"
    unfolding w_def r_def ulp_def e_def a_def .
  with False have rq: "round64 q = Finite (if q < 0 then - w else w)"
    unfolding w_def r_def ulp_def e_def a_def round64_def Let_def by (simp only: if_False)
  have "\<bar>(if q < 0 then - w else w) - q\<bar> = \<bar>w - a\<bar>"
  proof (cases "q < 0")
    case True
    have "\<bar>- w - q\<bar> = \<bar>- (w + q)\<bar>" by simp
    also have "\<dots> = \<bar>w + q\<bar>" by (rule abs_minus)
    finally show ?thesis using True by (simp add: a_def)
  next
    case False
    then show ?thesis by (simp add: a_def)
  qed
  with close bound have "\<bar>(if q < 0 then - w else w) - q\<bar> \<le> max (\<bar>q\<bar> / 2 ^ 53) (1 / 2 ^ 1075)"
    by (simp add: a_def)
  with rq show ?thesis by blast
qed

lemma is_digit_not_space: "is_digit c \<Longrightarrow> \<not> is_space c"
  by (auto simp: is_digit_def is_space_def)

lemma is_digit_to_lower:
  assumes "is_digit c"
  shows "to_lower c = c"
proof -
  from assms have up: "c \<notin> set ''ABCDEFGHIJKLMNOPQRSTUVWXYZ''" by (auto simp: is_digit_def)
  have len: "length ''ABCDEFGHIJKLMNOPQRSTUVWXYZ'' = length ''abcdefghijklmnopqrstuvwxyz''"
    by simp
  from map_of_zip_is_None[OF len, of c] up
  have "map_of (zip ''ABCDEFGHIJKLMNOPQRSTUVWXYZ'' ''abcdefghijklmnopqrstuvwxyz'') c = None"
    by (rule iffD2)
  then show ?thesis by (simp only: to_lower_def option.case)
qed

lemma underscores_ok_plain:
  "CHR ''_'' \<notin> set s \<Longrightarrow> prev \<noteq> CHR ''_'' \<Longrightarrow> underscores_ok prev s"
  by (induction s arbitrary: prev) auto

lemma dropWhile_none: "\<forall>x\<in>set xs. \<not> P x \<Longrightarrow> dropWhile P xs = xs"
  by (cases xs) auto

lemma strip_plain:
  assumes "\<forall>c\<in>set s. \<not> is_space c"
  shows "strip s = s"
proof -
  from assms have "dropWhile is_space s = s" by (rule dropWhile_none)
  moreover from assms have "dropWhile is_space (rev s) = rev s"
    by (intro dropWhile_none) simp
  ultimately show ?thesis by (simp add: strip_def)
qed

lemma scan_digits:
  assumes "list_all is_digit xs" and "ys = [] \<or> \<not> is_digit (hd ys)"
  shows "takeWhile is_digit (xs @ ys) = xs" and "dropWhile is_digit (xs @ ys) = ys"
proof -
  from assms(1) have all: "\<And>x. x \<in> set xs \<Longrightarrow> is_digit x" by (simp add: list_all_iff)
  from assms(2) have t: "takeWhile is_digit ys = []" and d: "dropWhile is_digit ys = ys"
    by (cases ys; simp)+
  show "takeWhile is_digit (xs @ ys) = xs" using takeWhile_append2[of xs is_digit ys] all t by simp
  show "dropWhile is_digit (xs @ ys) = ys" using dropWhile_append2[of xs is_digit ys] all d by simp
qed

lemma parse_decimal_plain:
  assumes "decimal_parts ip fp"
  shows "parse_decimal (ip @ (case fp of None \<Rightarrow> [] | Some f \<Rightarrow> ''.'' @ f)) =
         Some (of_nat (nat_of_digits (ip @ fraction_digits fp)) / 10 ^ length (fraction_digits fp))"
proof (cases fp)
  case None
  from assms have ip: "list_all is_digit ip" "ip \<noteq> []" by (simp_all add: decimal_parts_def)
  from scan_digits[OF ip(1), of "[]"] have 1: "takeWhile is_digit ip = ip" "dropWhile is_digit ip = []"
    by simp_all
  from ip(2) None show ?thesis
    by (simp add: parse_decimal_def 1 parse_exponent_def fraction_digits_def Let_def)
next
  case (Some f)
  from assms have ip: "list_all is_digit ip" "ip \<noteq> []" by (simp_all add: decimal_parts_def)
  from assms Some have f: "list_all is_digit f" by (simp add: decimal_parts_def fraction_digits_def)
  have "CHR ''.'' # f = [] \<or> \<not> is_digit (hd (CHR ''.'' # f))" by (simp add: is_digit_def)
  from scan_digits[OF ip(1) this]
  have 1: "takeWhile is_digit (ip @ CHR ''.'' # f) = ip" "dropWhile is_digit (ip @ CHR ''.'' # f) = CHR ''.'' # f" .
  from scan_digits[OF f, of "[]"] have 2: "takeWhile is_digit f = f" "dropWhile is_digit f = []"
    by simp_all
  from ip(2) Some show ?thesis
    by (simp add: parse_decimal_def 1 2 parse_exponent_def fraction_digits_def Let_def)
qed

lemma float_of_decimal_text:
  assumes "decimal_parts ip fp"
  shows "float_of_string (decimal_text neg ip fp) = Some (round64 (decimal_value neg ip fp))"
proof -
  define body where "body = ip @ (case fp of None \<Rightarrow> [] | Some f \<Rightarrow> ''.'' @ f)"
  define t where "t = decimal_text neg ip fp"
  have t: "t = (if neg then ''-'' else []) @ body" by (simp add: t_def decimal_text_def body_def)
  from assms obtain c cs where ip: "ip = c # cs" and c: "is_digit c"
    by (cases ip) (simp_all add: decimal_parts_def)
  have chars: "\<forall>x\<in>set t. is_digit x \<or> x = CHR ''-'' \<or> x = CHR ''.''"
    using assms
    by (auto simp: t body_def decimal_parts_def fraction_digits_def list_all_iff split: option.splits)
  have "\<forall>x\<in>set t. \<not> is_space x"
  proof
    fix x assume "x \<in> set t"
    with chars have "is_digit x \<or> x = CHR ''-'' \<or> x = CHR ''.''" by blast
    then show "\<not> is_space x"
    proof (elim disjE)
      assume "is_digit x"
      then show ?thesis by (rule is_digit_not_space)
    qed (simp_all add: is_space_def)
  qed
  then have strip: "strip t = t" by (rule strip_plain)
  have "CHR ''_'' \<notin> set t"
  proof
    assume "CHR ''_'' \<in> set t"
    with chars have "is_digit CHR ''_'' \<or> CHR ''_'' = CHR ''-'' \<or> CHR ''_'' = CHR ''.''" by blast
    then show False by (simp add: is_digit_def)
  qed
  then have under: "drop_underscores t = Some t"
    by (auto simp: drop_underscores_def underscores_ok_plain filter_id_conv)
  have body: "body = c # (cs @ (case fp of None \<Rightarrow> [] | Some f \<Rightarrow> ''.'' @ f))"
    by (simp add: body_def ip)
  from c have c': "c \<noteq> CHR ''-''" "c \<noteq> CHR ''+''" "c \<noteq> CHR ''i''" "c \<noteq> CHR ''n''"
    by (auto simp: is_digit_def)
  have sign: "parse_sign t = (neg, body)"
    using c' by (simp add: t parse_sign_def body)
  have low: "map to_lower body = c # map to_lower (cs @ (case fp of None \<Rightarrow> [] | Some f \<Rightarrow> ''.'' @ f))"
    by (simp add: body is_digit_to_lower[OF c])
  have names: "map to_lower body \<noteq> ''inf''" "map to_lower body \<noteq> ''infinity''"
    "map to_lower body \<noteq> ''nan''"
    using c' unfolding low by simp_all
  have dec: "parse_decimal body =
      Some (of_nat (nat_of_digits (ip @ fraction_digits fp)) / 10 ^ length (fraction_digits fp))"
    unfolding body_def using assms by (rule parse_decimal_plain)
  show ?thesis
    unfolding t_def[symmetric]
    by (simp add: float_of_string_def strip under sign names dec decimal_value_def Let_def)
qed

lemma round_half_even_floor: "\<lfloor>x\<rfloor> \<le> round_half_even x"
  by (simp add: round_half_even_def Let_def)

lemma floor_log2_ge:
  assumes "2 ^ k \<le> a"
  shows "int k \<le> floor_log2 a"
proof -
  have "(1::rat) \<le> 2 ^ k" by simp
  with assms have a: "1 \<le> a" by linarith
  from assms have "2 ^ k \<le> \<lfloor>a\<rfloor>" by (simp add: le_floor_iff)
  moreover from a have "0 \<le> \<lfloor>a\<rfloor>" by simp
  ultimately have "2 ^ k \<le> nat \<lfloor>a\<rfloor>" by (simp add: le_nat_iff)
  also have "\<dots> < 2 ^ bit_length (nat \<lfloor>a\<rfloor>)" by (rule bit_length_upper)
  finally have "k < bit_length (nat \<lfloor>a\<rfloor>)" by (simp add: power_less_imp_less_exp)
  with a show ?thesis by (simp add: floor_log2_def)
qed

lemma round64_overflow:
  assumes "2 ^ 1024 \<le> q"
  shows "round64 q = PosInf"
proof -
  define e where "e = max (floor_log2 \<bar>q\<bar>) (- 1022)"
  define ulp where "ulp = pow2 (e - 52)"
  define r where "r = round_half_even (\<bar>q\<bar> / ulp)"
  have "(0::rat) < 2 ^ 1024" by simp
  with assms have q: "0 < q" by linarith
  then have aq: "\<bar>q\<bar> = q" by simp
  from floor_log2_ge[OF assms] have fl: "1024 \<le> floor_log2 q" by simp
  then have e: "e = floor_log2 q" by (simp add: e_def aq)
  have ulp: "0 < ulp" by (simp add: ulp_def pow2_pos)
  have "pow2 (e - 52) = pow2 e / 2 ^ 52" by (simp add: pow2_powi power_int_diff)
  then have pe: "pow2 e = 2 ^ 52 * ulp" by (simp add: ulp_def)
  from floor_log2_lower[OF q] have "pow2 e \<le> q" by (simp only: e)
  then have "2 ^ 52 * ulp \<le> q" unfolding pe .
  with ulp have "2 ^ 52 \<le> q / ulp" by (simp add: pos_le_divide_eq)
  then have "2 ^ 52 \<le> \<lfloor>q / ulp\<rfloor>" by (simp add: le_floor_iff)
  also have "\<dots> \<le> r" unfolding r_def aq by (rule round_half_even_floor)
  finally have "(of_int (2 ^ 52) :: rat) \<le> of_int r" by (simp only: of_int_le_iff)
  then have "2 ^ 52 \<le> (of_int r :: rat)" by simp
  with ulp have "2 ^ 52 * ulp \<le> of_int r * ulp" by (simp only: mult_le_cancel_right_pos)
  with pe have "pow2 e \<le> of_int r * ulp" by simp
  moreover from fl have "pow2 1024 \<le> pow2 e" unfolding e by (rule pow2_mono)
  ultimately have "pow2 1024 \<le> of_int r * ulp" by linarith
  then have "pow2 1024 \<le>
      of_int (round_half_even (\<bar>q\<bar> / pow2 (max (floor_log2 \<bar>q\<bar>) (- 1022) - 52))) *
      pow2 (max (floor_log2 \<bar>q\<bar>) (- 1022) - 52)"
    unfolding r_def ulp_def e_def .
  moreover from q have "q \<noteq> 0" "\<not> q < 0" by simp_all
  ultimately show ?thesis unfolding round64_def Let_def by (simp only: if_True if_False)
qed

lemma parse_decimal_power_of_ten:
  assumes "ds \<noteq> []" and "list_all is_digit ds"
  shows "parse_decimal (''1e'' @ ds) = Some (10 ^ nat_of_digits ds)"
proof -
  from assms obtain c cs where ds: "ds = c # cs" and c: "is_digit c"
    by (cases ds) simp_all
  from c have c': "c \<noteq> CHR ''-''" "c \<noteq> CHR ''+''" by (auto simp: is_digit_def)
  from scan_digits[OF assms(2), of "[]"]
  have sc: "takeWhile is_digit ds = ds" "dropWhile is_digit ds = []" by simp_all
  have sign: "parse_sign ds = (False, ds)" using c' by (simp add: parse_sign_def ds)
  have ex: "parse_exponent (CHR ''e'' # ds) = (int (nat_of_digits ds), [])"
    using assms(1) by (simp add: parse_exponent_def sign sc)
  have one: "nat_of_digits ''1'' = 1" by (simp add: digit_val_def)
  have hd: "takeWhile is_digit (''1e'' @ ds) = ''1''" "dropWhile is_digit (''1e'' @ ds) = CHR ''e'' # ds"
    by (simp_all add: is_digit_def)
  show ?thesis
    unfolding parse_decimal_def hd by (simp add: ex one del: nat_of_digits.simps)
qed

lemma float_of_power_of_ten:
  assumes "ds \<noteq> []" and "list_all is_digit ds" and "342 \<le> nat_of_digits ds"
  shows "float_of_string (''1e'' @ ds) = Some PosInf"
proof -
  define t where "t = ''1e'' @ ds"
  from assms(2) have dig: "\<forall>x\<in>set ds. is_digit x" by (simp add: list_all_iff)
  have one: "is_digit CHR ''1''" by (simp add: is_digit_def)
  have chars: "\<forall>x\<in>set t. is_digit x \<or> x = CHR ''e''"
    using dig one by (auto simp: t_def)
  have "\<forall>x\<in>set t. \<not> is_space x"
  proof
    fix x assume "x \<in> set t"
    with chars have "is_digit x \<or> x = CHR ''e''" by blast
    then show "\<not> is_space x"
    proof
      assume "is_digit x"
      then show ?thesis by (rule is_digit_not_space)
    qed (simp add: is_space_def)
  qed
  then have strip: "strip t = t" by (rule strip_plain)
  have "CHR ''_'' \<notin> set t"
  proof
    assume "CHR ''_'' \<in> set t"
    with chars have "is_digit CHR ''_'' \<or> CHR ''_'' = CHR ''e''" by blast
    then show False by (simp add: is_digit_def)
  qed
  then have under: "drop_underscores t = Some t"
    by (auto simp: drop_underscores_def underscores_ok_plain filter_id_conv)
  have sign: "parse_sign t = (False, t)" by (simp add: t_def parse_sign_def)
  have low: "map to_lower t = CHR ''1'' # map to_lower (CHR ''e'' # ds)"
    using is_digit_to_lower[OF one] by (simp add: t_def)
  have names: "map to_lower t \<noteq> ''inf''" "map to_lower t \<noteq> ''infinity''"
    "map to_lower t \<noteq> ''nan''"
    unfolding low by simp_all
  have dec: "parse_decimal t = Some (10 ^ nat_of_digits ds)"
    unfolding t_def using assms(1,2) by (rule parse_decimal_power_of_ten)
  from assms(3) have "1024 \<le> 3 * nat_of_digits ds" by linarith
  then have "(2::rat) ^ 1024 \<le> 2 ^ (3 * nat_of_digits ds)"
    by (rule power_increasing) simp
  also have "\<dots> = (2 ^ 3) ^ nat_of_digits ds" by (rule power_mult)
  also have "\<dots> \<le> 10 ^ nat_of_digits ds" by (rule power_mono) simp_all
  finally have "round64 (10 ^ nat_of_digits ds) = PosInf" by (rule round64_overflow)
  then show ?thesis
    unfolding t_def[symmetric]
    by (simp add: float_of_string_def strip under sign names dec del: nat_of_digits.simps)
qed

lemma float_of_1e999: "float_of_string ''1e999'' = Some PosInf"
proof -
  have "342 \<le> nat_of_digits ''999''" by (simp add: digit_val_def)
  moreover have "list_all is_digit ''999''" by (simp add: is_digit_def)
  ultimately have "float_of_string (''1e'' @ ''999'') = Some PosInf"
    by (intro float_of_power_of_ten) simp_all
  then show ?thesis by simp
qed

lemma round64_example: "round64 (2469 / 2) = Finite (2469 / 2)"
proof -
  have bl: "bit_length 1234 = 11" by (simp add: bit_length.simps)
  have fl: "\<lfloor>2469 / 2 :: rat\<rfloor> = 1234" by (simp add: floor_eq_iff)
  have e: "floor_log2 (2469 / 2) = 10" by (simp add: floor_log2_def bl fl)
  have r: "round_half_even 5429388417957888 = 5429388417957888"
    by (simp add: round_half_even_def Let_def)
  show ?thesis by (simp add: round64_def e r Let_def pow2_def)
qed

text \<open>
  C6, as stated, fails: the text \<^verbatim>\<open>1e999\<close> looks numeric, but its value is beyond the
  binary64 range. \<^verbatim>\<open>float\<close> returns the infinity, not the value of the text, and
  \<^verbatim>\<open>int\<close> of the infinity raises \<^verbatim>\<open>OverflowError\<close>, which leaves \<open>safe_int\<close>: no truncated
  integer is returned.
\<close>

theorem numeric_text_overflow_counterexample:
  "safe_float (CStr ''1e999'') = Inr PosInf \<and> safe_int (CStr ''1e999'') = Inl OverflowError"
  by (simp add: safe_float_def safe_float_default_def safe_int_def safe_int_default_def
      is_blank_def float_of_1e999 py_float_def py_int_of_float_def catch_value_type_def)

text \<open>
  C6, amended: for a decimal numeral (optional minus sign, digits, optionally a point and
  digits) of magnitude below \<open>2 ^ 1023\<close>, \<open>safe_float\<close> returns the binary64 value \<open>v\<close>
  nearest to the number written, which differs from it by at most the relative error
  \<open>2 ^ -53\<close> (or \<open>2 ^ -1075\<close> in the subnormal range) and is the number itself when that is
  a binary64 value; \<open>safe_int\<close> returns \<open>v\<close> truncated toward zero: the integer \<open>n\<close> with
  \<open>|n| \<le> |v|\<close> and \<open>|v - n| < 1\<close>.
\<close>

theorem numeric_text_coercion:
  assumes "decimal_parts ip fp" and "\<bar>decimal_value neg ip fp\<bar> < 2 ^ 1023"
  shows "\<exists>v n. round64 (decimal_value neg ip fp) = Finite v \<and>
           safe_float (CStr (decimal_text neg ip fp)) = Inr (Finite v) \<and>
           safe_int (CStr (decimal_text neg ip fp)) = Inr n \<and>
           \<bar>v - decimal_value neg ip fp\<bar> \<le>
             max (\<bar>decimal_value neg ip fp\<bar> / 2 ^ 53) (1 / 2 ^ 1075) \<and>
           \<bar>of_int n\<bar> \<le> \<bar>v\<bar> \<and> \<bar>v - of_int n\<bar> < 1"
proof -
  from round64_close[OF assms(2)] obtain v
    where v: "round64 (decimal_value neg ip fp) = Finite v"
      and close: "\<bar>v - decimal_value neg ip fp\<bar> \<le>
             max (\<bar>decimal_value neg ip fp\<bar> / 2 ^ 53) (1 / 2 ^ 1075)" by blast
  define t where "t = decimal_text neg ip fp"
  from assms(1) obtain c cs where ip: "ip = c # cs" and c: "is_digit c"
    by (cases ip) (simp_all add: decimal_parts_def)
  from c have "c \<noteq> CHR ''-''" by (auto simp: is_digit_def)
  with ip have "t \<noteq> []" "t \<noteq> ''-''" by (simp_all add: t_def decimal_text_def)
  then have nb: "\<not> is_blank (CStr t)" by (simp add: is_blank_def)
  from float_of_decimal_text[OF assms(1), of neg] v
  have "float_of_string t = Some (Finite v)" by (simp add: t_def)
  then have pf: "py_float (CStr t) = Inr (Finite v)" by (simp add: py_float_def)
  define n where "n = (if 0 \<le> v then \<lfloor>v\<rfloor> else \<lceil>v\<rceil>)"
  have sf: "safe_float (CStr t) = Inr (Finite v)"
    using nb by (simp add: safe_float_def safe_float_default_def pf catch_value_type_def)
  have si: "safe_int (CStr t) = Inr n"
    using nb by (simp add: safe_int_def safe_int_default_def pf py_int_of_float_def
        catch_value_type_def n_def)
  have tr: "\<bar>of_int n\<bar> \<le> \<bar>v\<bar> \<and> \<bar>v - of_int n\<bar> < 1"
  proof (cases "0 \<le> v")
    case True
    then have n: "n = \<lfloor>v\<rfloor>" by (simp add: n_def)
    from True have "0 \<le> \<lfloor>v\<rfloor>" by simp
    then have "(0::rat) \<le> of_int \<lfloor>v\<rfloor>" by simp
    moreover have "of_int \<lfloor>v\<rfloor> \<le> v" "v < of_int \<lfloor>v\<rfloor> + 1" by linarith+
    ultimately show ?thesis unfolding n by linarith
  next
    case False
    then have n: "n = \<lceil>v\<rceil>" by (simp add: n_def)
    from False have "\<lceil>v\<rceil> \<le> 0" by (simp add: ceiling_le_iff)
    then have "of_int \<lceil>v\<rceil> \<le> (0::rat)" by simp
    moreover have "v \<le> of_int \<lceil>v\<rceil>" "of_int \<lceil>v\<rceil> < v + 1" by linarith+
    ultimately show ?thesis unfolding n using False by linarith
  qed
  from v sf si close tr show ?thesis unfolding t_def by blast
qed

theorem numeric_text_coercion_witness:
  "decimal_parts ''12'' (Some ''9'') \<and> \<bar>decimal_value False ''12'' (Some ''9'')\<bar> < 2 ^ 1023 \<and>
   decimal_text False ''12'' (Some ''9'') = ''12.9'' \<and>
   safe_int (CStr ''12.9'') = Inr 12 \<and>
   safe_float (CStr ''1234.5'') = Inr (Finite (2469 / 2))"
proof -
  have p: "decimal_parts ''12'' (Some ''9'')"
    by (simp add: decimal_parts_def fraction_digits_def is_digit_def)
  have q: "decimal_value False ''12'' (Some ''9'') = 129 / 10"
    by (simp add: decimal_value_def fraction_digits_def digit_val_def)
  have b: "\<bar>decimal_value False ''12'' (Some ''9'')\<bar> < 2 ^ 1023" unfolding q by simp
  have t: "decimal_text False ''12'' (Some ''9'') = ''12.9''" by (simp add: decimal_text_def)
  from numeric_text_coercion[OF p b] obtain v :: rat and n
    where si: "safe_int (CStr ''12.9'') = Inr n"
      and close: "\<bar>v - 129 / 10\<bar> \<le> max (\<bar>129 / 10\<bar> / 2 ^ 53) (1 / 2 ^ 1075)"
      and tr: "\<bar>of_int n\<bar> \<le> \<bar>v\<bar>" "\<bar>v - of_int n\<bar> < 1"
    unfolding q t by blast
  have "max (\<bar>129 / 10\<bar> / 2 ^ 53) (1 / 2 ^ 1075) \<le> (1 / 100 :: rat)" by simp
  with close have "\<bar>v - 129 / 10\<bar> \<le> 1 / 100" by linarith
  with tr have "(of_int n :: rat) < 13" "11 < (of_int n :: rat)" by linarith+
  then have "n < 13" "11 < n" by simp_all
  then have n: "n = 12" by linarith
  have p2: "decimal_parts ''1234'' (Some ''5'')"
    by (simp add: decimal_parts_def fraction_digits_def is_digit_def)
  have q2: "decimal_value False ''1234'' (Some ''5'') = 2469 / 2"
    by (simp add: decimal_value_def fraction_digits_def digit_val_def)
  have b2: "\<bar>decimal_value False ''1234'' (Some ''5'')\<bar> < 2 ^ 1023" unfolding q2 by simp
  have t2: "decimal_text False ''1234'' (Some ''5'') = ''1234.5''" by (simp add: decimal_text_def)
  note r2 = round64_example
  from numeric_text_coercion[OF p2 b2] obtain v2 :: rat
    where "round64 (2469 / 2) = Finite v2" "safe_float (CStr ''1234.5'') = Inr (Finite v2)"
    unfolding q2 t2 by blast
  with r2 have sf: "safe_float (CStr ''1234.5'') = Inr (Finite (2469 / 2))" by simp
  from p b t si n sf show ?thesis by simp
qed

end
